theory Spec2Isabelle
  imports Complex_Main
begin

section \<open>Pareto dominance (\<^verbatim>\<open>determine_dominance\<close>)\<close>

text \<open>
  Objective vectors are NumPy arrays of floats; they are modelled as lists of reals
  (finite values, exact arithmetic).  \<^verbatim>\<open>np.all(a <= b)\<close> and \<^verbatim>\<open>np.any(a < b)\<close> compare
  two equal-length vectors coordinate by coordinate.
\<close>

definition np_all_le :: "real list \<Rightarrow> real list \<Rightarrow> bool" where
  "np_all_le a b = list_all (\<lambda>(x, y). x \<le> y) (zip a b)"

definition np_any_lt :: "real list \<Rightarrow> real list \<Rightarrow> bool" where
  "np_any_lt a b = list_ex (\<lambda>(x, y). x < y) (zip a b)"

definition determine_dominance :: "real list \<Rightarrow> real list \<Rightarrow> int" where
  "determine_dominance score1 score2 =
     (if np_all_le score1 score2 \<and> np_any_lt score1 score2 then 1
      else if np_all_le score2 score1 \<and> np_any_lt score2 score1 then - 1
      else 0)"

section \<open>NumPy indexing helpers\<close>

text \<open>
  \<^verbatim>\<open>np.where(cond)[0]\<close> lists, in increasing order, the indices at which a condition holds;
  \<^verbatim>\<open>a[idx]\<close> with an index array reads the listed entries, \<^verbatim>\<open>a[idx] = c\<close> stores a scalar at
  each of them and \<^verbatim>\<open>a[idx] = vals\<close> stores the values position by position.
  \<^verbatim>\<open>np.argsort\<close> returns the indices that sort its argument in increasing order; ties are
  kept in index order here (a stable sort).
\<close>

definition np_where :: "('a \<Rightarrow> bool) \<Rightarrow> 'a list \<Rightarrow> nat list" where
  "np_where p xs = filter (\<lambda>i. p (xs ! i)) [0..<length xs]"

definition np_take :: "'a list \<Rightarrow> nat list \<Rightarrow> 'a list" where
  "np_take a idx = map (\<lambda>i. a ! i) idx"

definition np_fill :: "nat list \<Rightarrow> 'a \<Rightarrow> 'a list \<Rightarrow> 'a list" where
  "np_fill idx c a = fold (\<lambda>i acc. acc[i := c]) idx a"

definition np_put :: "nat list \<Rightarrow> 'a list \<Rightarrow> 'a list \<Rightarrow> 'a list" where
  "np_put idx vals a = fold (\<lambda>(i, v) acc. acc[i := v]) (zip idx vals) a"

definition argsort :: "'a::linorder list \<Rightarrow> nat list" where
  "argsort xs = sort_key (\<lambda>i. xs ! i) [0..<length xs]"

section \<open>Fast non-dominated sorting (\<^verbatim>\<open>non_dominated_sort\<close>, part 1)\<close>

text \<open>
  The score matrix is a list of rows.  The first double loop compares every pair \<open>i < j\<close>
  once and records, for each individual, the list of individuals it dominates and the
  number of individuals dominating it.
\<close>

definition compare_pair ::
  "real list list \<Rightarrow> nat \<Rightarrow> nat \<Rightarrow> nat list list \<times> int list \<Rightarrow> nat list list \<times> int list" where
  "compare_pair scores i j st =
     (case st of (domination_sets, dominated_counts) \<Rightarrow>
        let dominance_status = determine_dominance (scores ! i) (scores ! j) in
        if dominance_status = 1 then
          (domination_sets[i := domination_sets ! i @ [j]],
           dominated_counts[j := dominated_counts ! j + 1])
        else if dominance_status = - 1 then
          (domination_sets[j := domination_sets ! j @ [i]],
           dominated_counts[i := dominated_counts ! i + 1])
        else (domination_sets, dominated_counts))"

definition dominance_pass :: "real list list \<Rightarrow> nat list list \<times> int list" where
  "dominance_pass scores =
     (let pop_size = length scores in
      fold (\<lambda>i. fold (compare_pair scores i) [i + 1..<pop_size]) [0..<pop_size]
        (replicate pop_size [], replicate pop_size 0))"

text \<open>
  The peeling loop.  \<open>release\<close> is the body of the innermost loop: decrement the count of
  \<open>j\<close> and queue \<open>j\<close> for the next front when the count reaches zero.  \<open>expand_front\<close> runs
  it for every \<open>j\<close> dominated by a member of the current front.  The \<^verbatim>\<open>while\<close> loop has no
  syntactic bound, so it is a partial function: \<open>None\<close> stands for not returning.
\<close>

definition release :: "nat \<Rightarrow> int list \<times> nat list \<Rightarrow> int list \<times> nat list" where
  "release j st =
     (case st of (dominated_counts, next_front_indices) \<Rightarrow>
        let dominated_counts' = dominated_counts[j := dominated_counts ! j - 1] in
        (dominated_counts',
         if dominated_counts' ! j = 0 then next_front_indices @ [j] else next_front_indices))"

definition expand_front :: "nat list list \<Rightarrow> nat list \<Rightarrow> int list \<Rightarrow> int list \<times> nat list" where
  "expand_front domination_sets current_front_indices dominated_counts =
     fold (\<lambda>i. fold release (domination_sets ! i)) current_front_indices (dominated_counts, [])"

partial_function (option) assign_fronts ::
  "nat list list \<Rightarrow> int list \<Rightarrow> nat list \<Rightarrow> nat \<Rightarrow> nat list \<Rightarrow> nat list list
     \<Rightarrow> (nat list \<times> nat list list) option" where
  "assign_fronts domination_sets dominated_counts current_front_indices front_num ranks fronts =
     (if current_front_indices = [] then Some (ranks, fronts)
      else
        (case expand_front domination_sets current_front_indices dominated_counts of
           (dominated_counts', next_front_indices) \<Rightarrow>
             assign_fronts domination_sets dominated_counts' next_front_indices (front_num + 1)
               (np_fill current_front_indices front_num ranks)
               (fronts @ [current_front_indices])))"

declare assign_fronts.simps [code]

section \<open>Crowding distance (\<^verbatim>\<open>non_dominated_sort\<close>, part 2)\<close>

text \<open>
  A crowding distance is a float that may be \<^verbatim>\<open>np.inf\<close>: a finite real or infinity, where
  adding a finite amount to infinity leaves infinity.  The order puts infinity on top.
\<close>

datatype dist = Fin real | Inf

fun add_dist :: "dist \<Rightarrow> real \<Rightarrow> dist" where
  "add_dist (Fin a) r = Fin (a + r)"
| "add_dist Inf r = Inf"

fun dist_le :: "dist \<Rightarrow> dist \<Rightarrow> bool" where
  "dist_le (Fin a) (Fin b) = (a \<le> b)"
| "dist_le _ Inf = True"
| "dist_le Inf (Fin b) = False"

instantiation dist :: linorder
begin

definition less_eq_dist :: "dist \<Rightarrow> dist \<Rightarrow> bool" where
  "less_eq_dist x y = dist_le x y"

definition less_dist :: "dist \<Rightarrow> dist \<Rightarrow> bool" where
  "less_dist x y = (dist_le x y \<and> \<not> dist_le y x)"

instance
proof
  fix x y z :: dist
  show "(x < y) = (x \<le> y \<and> \<not> y \<le> x)"
    by (simp add: less_dist_def less_eq_dist_def)
  show "x \<le> x"
    by (cases x) (simp_all add: less_eq_dist_def)
  show "x \<le> y \<Longrightarrow> y \<le> z \<Longrightarrow> x \<le> z"
    by (cases x; cases y; cases z) (simp_all add: less_eq_dist_def)
  show "x \<le> y \<Longrightarrow> y \<le> x \<Longrightarrow> x = y"
    by (cases x; cases y) (simp_all add: less_eq_dist_def)
  show "x \<le> y \<or> y \<le> x"
    by (cases x; cases y) (auto simp: less_eq_dist_def)
qed

end

text \<open>
  \<open>crowding_objective\<close> is the body of the loop over the objectives \<open>m\<close> of one front:
  nothing when the front has zero range on \<open>m\<close>; otherwise infinity for the first and last
  member in the order of \<open>m\<close>, and the normalised gap between its two neighbours added to
  every member in between.
\<close>

definition crowding_objective :: "real list list \<Rightarrow> nat \<Rightarrow> dist list \<Rightarrow> dist list" where
  "crowding_objective front_scores m distances_in_front =
     (let n_front = length front_scores;
          sort_idx = argsort (map (\<lambda>row. row ! m) front_scores);
          f_min = front_scores ! (sort_idx ! 0) ! m;
          f_max = front_scores ! (sort_idx ! (n_front - 1)) ! m
      in if f_max = f_min then distances_in_front
         else
           fold (\<lambda>i d. d[sort_idx ! i :=
                   add_dist (d ! (sort_idx ! i))
                     ((front_scores ! (sort_idx ! (i + 1)) ! m
                        - front_scores ! (sort_idx ! (i - 1)) ! m) / (f_max - f_min))])
             [1..<n_front - 1]
             (distances_in_front[sort_idx ! 0 := Inf, sort_idx ! (n_front - 1) := Inf]))"

definition front_crowding :: "real list list \<Rightarrow> nat \<Rightarrow> nat list \<Rightarrow> dist list \<Rightarrow> dist list" where
  "front_crowding scores n_obj front crowding_distances =
     (if length front \<le> 2 then np_fill front Inf crowding_distances
      else
        let front_scores = np_take scores front;
            n_front = length front;
            distances_in_front =
              fold (crowding_objective front_scores) [0..<n_obj] (replicate n_front (Fin 0))
        in np_put front distances_in_front crowding_distances)"

text \<open>
  The whole function; \<open>n_obj\<close> is the second component of \<^verbatim>\<open>scores.shape\<close>.
\<close>

definition non_dominated_sort :: "nat \<Rightarrow> real list list \<Rightarrow> (nat list \<times> dist list) option" where
  "non_dominated_sort n_obj scores =
     (let pop_size = length scores in
      case dominance_pass scores of
        (domination_sets, dominated_counts) \<Rightarrow>
          (case assign_fronts domination_sets dominated_counts
                  (np_where (\<lambda>c. c = 0) dominated_counts) 1 (replicate pop_size 0) [] of
             None \<Rightarrow> None
           | Some (ranks, fronts) \<Rightarrow>
               Some (ranks,
                 fold (front_crowding scores n_obj) fronts (replicate pop_size (Fin 0)))))"

section \<open>Specification of the sorting\<close>

text \<open>
  The notions the sorting is checked against.  Individual \<open>i\<close> dominates \<open>j\<close> when the
  comparison of their score rows returns \<open>1\<close>; \<open>doms scores j\<close> are the individuals that
  dominate \<open>j\<close>.  A rank assignment is right at \<open>j\<close> when every dominator of \<open>j\<close> has
  a smaller positive rank and, unless \<open>j\<close> has rank \<open>1\<close>, one of them has the rank just below.
  The remaining predicates are the loop invariants of the two passes.
\<close>

definition dominates :: "real list list \<Rightarrow> nat \<Rightarrow> nat \<Rightarrow> bool" where
  "dominates scores i j \<longleftrightarrow> determine_dominance (scores ! i) (scores ! j) = 1"

definition index_pairs :: "nat \<Rightarrow> (nat \<times> nat) list" where
  "index_pairs n = concat (map (\<lambda>i. map (Pair i) [i + 1..<n]) [0..<n])"

definition seen :: "(nat \<times> nat) list \<Rightarrow> nat \<Rightarrow> nat \<Rightarrow> bool" where
  "seen ps a b \<longleftrightarrow> (a, b) \<in> set ps \<or> (b, a) \<in> set ps"

definition pass_inv ::
  "real list list \<Rightarrow> (nat \<times> nat) list \<Rightarrow> nat list list \<times> int list \<Rightarrow> bool" where
  "pass_inv scores ps st \<longleftrightarrow>
     (case st of (ds, dc) \<Rightarrow>
        length ds = length scores \<and> length dc = length scores \<and>
        (\<forall>a<length scores. distinct (ds ! a) \<and>
            set (ds ! a) = {b. seen ps a b \<and> dominates scores a b}) \<and>
        (\<forall>b<length scores. dc ! b = int (card {a. seen ps a b \<and> dominates scores a b})))"

definition doms :: "real list list \<Rightarrow> nat \<Rightarrow> nat set" where
  "doms scores j = {i. i < length scores \<and> dominates scores i j}"

definition rank_ok :: "real list list \<Rightarrow> nat list \<Rightarrow> nat \<Rightarrow> bool" where
  "rank_ok scores ranks j \<longleftrightarrow>
     (\<forall>i\<in>doms scores j. 0 < ranks ! i \<and> ranks ! i < ranks ! j) \<and>
     (ranks ! j = 1 \<or> (\<exists>i\<in>doms scores j. Suc (ranks ! i) = ranks ! j))"

definition peel_inv ::
  "real list list \<Rightarrow> int list \<Rightarrow> nat list \<Rightarrow> nat \<Rightarrow> nat list \<Rightarrow> nat list list \<Rightarrow> bool" where
  "peel_inv scores dc cur k ranks fronts \<longleftrightarrow>
     length dc = length scores \<and> length ranks = length scores \<and> 0 < k \<and>
     (\<forall>j<length scores. ranks ! j < k) \<and>
     distinct cur \<and> set cur = {j. j < length scores \<and> ranks ! j = 0 \<and> dc ! j = 0} \<and>
     (\<forall>j<length scores. dc ! j = int (card {i \<in> doms scores j. ranks ! i = 0})) \<and>
     (\<forall>j<length scores. 0 < ranks ! j \<longrightarrow> rank_ok scores ranks j) \<and>
     (\<forall>j\<in>set cur. k = 1 \<or> (\<exists>i\<in>doms scores j. Suc (ranks ! i) = k)) \<and>
     Suc (length fronts) = k \<and>
     (\<forall>r<length fronts. fronts ! r \<noteq> [] \<and> distinct (fronts ! r) \<and>
         set (fronts ! r) = {j. j < length scores \<and> ranks ! j = Suc r})"

definition is_matrix :: "nat \<Rightarrow> real list list \<Rightarrow> bool" where
  "is_matrix n_obj scores \<longleftrightarrow> list_all (\<lambda>row. length row = n_obj) scores"

definition sorted_out :: "real list list \<Rightarrow> nat list \<Rightarrow> nat list list \<Rightarrow> bool" where
  "sorted_out scores ranks fronts \<longleftrightarrow>
     length ranks = length scores \<and>
     (\<forall>j<length scores. 0 < ranks ! j \<and> ranks ! j \<le> length fronts \<and> rank_ok scores ranks j) \<and>
     (\<forall>r<length fronts. fronts ! r \<noteq> [] \<and> distinct (fronts ! r) \<and>
         set (fronts ! r) = {j. j < length scores \<and> ranks ! j = Suc r})"

text \<open>
  The crowding distance in the words of the specification, for member \<open>k\<close> of a front
  with score rows \<open>fs\<close>: the members are ordered by objective \<open>m\<close>; the range of \<open>m\<close> is
  the difference between its largest and smallest value over the front; the boundary
  members are the first and last of the order; the gap of an interior member is the
  difference between the values of its successor and its predecessor, divided by the
  range.
\<close>

definition column :: "real list list \<Rightarrow> nat \<Rightarrow> real list" where
  "column fs m = map (\<lambda>row. row ! m) fs"

definition position :: "nat list \<Rightarrow> nat \<Rightarrow> nat" where
  "position xs k = length (takeWhile (\<lambda>x. x \<noteq> k) xs)"

definition objective_range :: "real list list \<Rightarrow> nat \<Rightarrow> real" where
  "objective_range fs m = Max (set (column fs m)) - Min (set (column fs m))"

definition is_boundary :: "real list list \<Rightarrow> nat \<Rightarrow> nat \<Rightarrow> bool" where
  "is_boundary fs m k \<longleftrightarrow>
     (let order = argsort (column fs m) in k = hd order \<or> k = last order)"

definition neighbour_gap :: "real list list \<Rightarrow> nat \<Rightarrow> nat \<Rightarrow> real" where
  "neighbour_gap fs m k =
     (let col = column fs m; order = argsort col; p = position order k
      in (col ! (order ! (p + 1)) - col ! (order ! (p - 1))) / objective_range fs m)"

definition crowding_spec :: "real list list \<Rightarrow> nat \<Rightarrow> nat \<Rightarrow> dist" where
  "crowding_spec fs n_obj k =
     (if list_ex (\<lambda>m. objective_range fs m \<noteq> 0 \<and> is_boundary fs m k) [0..<n_obj] then Inf
      else Fin (\<Sum>m\<leftarrow>[0..<n_obj]. if objective_range fs m \<noteq> 0 then neighbour_gap fs m k else 0))"

section \<open>Correctness of the dominance pass and of the peeling loop\<close>

lemma not_both_dominate:
  "\<not> (np_all_le a b \<and> np_any_lt a b \<and> np_all_le b a)"
proof
  assume h: "np_all_le a b \<and> np_any_lt a b \<and> np_all_le b a"
  then obtain x y where xy: "(x, y) \<in> set (zip a b)" "x < y"
    by (auto simp: np_any_lt_def list_ex_iff)
  then have "(y, x) \<in> set (zip b a)"
    by (metis in_set_zip fst_conv snd_conv)
  with h have "y \<le> x"
    by (auto simp: np_all_le_def list_all_iff)
  with xy show False by simp
qed

lemma determine_dominance_minus:
  "determine_dominance a b = - 1 \<longleftrightarrow> determine_dominance b a = 1"
  using not_both_dominate [of a b] not_both_dominate [of b a]
  by (auto simp: determine_dominance_def)

lemma determine_dominance_irrefl: "determine_dominance a a \<noteq> 1"
  using not_both_dominate [of a a] by (auto simp: determine_dominance_def)

lemma dominates_irrefl: "\<not> dominates scores i i"
  by (simp add: dominates_def determine_dominance_irrefl)

lemma dominates_asym: "dominates scores i j \<Longrightarrow> \<not> dominates scores j i"
  using determine_dominance_minus [of "scores ! i" "scores ! j"]
  by (simp add: dominates_def)

lemma fold_concat: "fold f (concat xss) = fold (fold f) xss"
  by (induction xss) simp_all

lemma dominance_pass_flat:
  "dominance_pass scores =
     fold (\<lambda>(i, j). compare_pair scores i j) (index_pairs (length scores))
       (replicate (length scores) [], replicate (length scores) 0)"
proof -
  have "fold (\<lambda>(i, j). compare_pair scores i j) (index_pairs n) =
        fold (\<lambda>i. fold (compare_pair scores i) [i + 1..<n]) [0..<n]" for n
    by (simp add: index_pairs_def fold_concat fold_map comp_def)
  then show ?thesis by (simp add: dominance_pass_def Let_def)
qed

lemma finite_seen: "finite {a. seen ps a b \<and> P a}"
proof -
  have "{a. seen ps a b \<and> P a} \<subseteq> fst ` set ps \<union> snd ` set ps"
    by (force simp: seen_def)
  then show ?thesis by (rule finite_subset) simp
qed

lemma seen_snoc: "seen (ps @ [(i, j)]) a b \<longleftrightarrow> seen ps a b \<or> (a = i \<and> b = j) \<or> (a = j \<and> b = i)"
  by (auto simp: seen_def)

lemma seen_sym: "seen ps a b \<longleftrightarrow> seen ps b a"
  by (auto simp: seen_def)

lemma pass_inv_step_fwd:
  assumes inv: "pass_inv scores ps (ds, dc)" and i: "i < length scores" and j: "j < length scores"
    and new: "\<not> seen ps i j" and fwd: "dominates scores i j"
  shows "pass_inv scores (ps @ [(i, j)]) (ds[i := ds ! i @ [j]], dc[j := dc ! j + 1])"
proof -
  let ?ps = "ps @ [(i, j)]"
  let ?D = "\<lambda>qs a. {b. seen qs a b \<and> dominates scores a b}"
  let ?C = "\<lambda>qs b. {a. seen qs a b \<and> dominates scores a b}"
  from inv have len: "length ds = length scores" "length dc = length scores"
    and dsI: "\<And>a. a < length scores \<Longrightarrow> distinct (ds ! a) \<and> set (ds ! a) = ?D ps a"
    and dcI: "\<And>b. b < length scores \<Longrightarrow> dc ! b = int (card (?C ps b))"
    by (auto simp: pass_inv_def)
  from fwd have nb: "\<not> dominates scores j i" by (rule dominates_asym)
  have D: "?D ?ps a = (if a = i then insert j (?D ps a) else ?D ps a)" for a
    using fwd nb by (auto simp: seen_snoc)
  have C: "?C ?ps b = (if b = j then insert i (?C ps b) else ?C ps b)" for b
    using fwd nb by (auto simp: seen_snoc)
  have jnew: "j \<notin> ?D ps i" using new by simp
  have inew: "i \<notin> ?C ps j" using new by simp
  have fin: "finite (?C ps j)" by (rule finite_seen)
  have "distinct ((ds[i := ds ! i @ [j]]) ! a) \<and> set ((ds[i := ds ! i @ [j]]) ! a) = ?D ?ps a"
    if "a < length scores" for a
    using dsI [OF that] dsI [OF i] jnew that len
    by (cases "a = i") (simp_all add: D)
  moreover have "(dc[j := dc ! j + 1]) ! b = int (card (?C ?ps b))"
    if "b < length scores" for b
    using dcI [OF that] dcI [OF j] inew fin that len
    by (cases "b = j") (simp_all add: C)
  ultimately show ?thesis
    using len by (simp add: pass_inv_def)
qed

lemma pass_inv_swap: "pass_inv scores (ps @ [(i, j)]) st \<longleftrightarrow> pass_inv scores (ps @ [(j, i)]) st"
proof -
  have "seen (ps @ [(i, j)]) = seen (ps @ [(j, i)])"
    by (auto simp: seen_def fun_eq_iff)
  then show ?thesis by (simp add: pass_inv_def)
qed

lemma pass_inv_none:
  assumes inv: "pass_inv scores ps st" and "\<not> dominates scores i j" "\<not> dominates scores j i"
  shows "pass_inv scores (ps @ [(i, j)]) st"
proof -
  have "{b. seen (ps @ [(i, j)]) a b \<and> dominates scores a b} = {b. seen ps a b \<and> dominates scores a b}" for a
    using assms(2,3) by (auto simp: seen_snoc)
  moreover have "{a. seen (ps @ [(i, j)]) a b \<and> dominates scores a b} = {a. seen ps a b \<and> dominates scores a b}" for b
    using assms(2,3) by (auto simp: seen_snoc)
  ultimately show ?thesis using inv by (simp add: pass_inv_def)
qed

lemma pass_inv_step:
  assumes inv: "pass_inv scores ps st" and i: "i < length scores" and j: "j < length scores"
    and new: "\<not> seen ps i j"
  shows "pass_inv scores (ps @ [(i, j)]) (compare_pair scores i j st)"
proof -
  obtain ds dc where st: "st = (ds, dc)" by (cases st)
  consider (fwd) "dominates scores i j" | (bwd) "dominates scores j i"
    | (none) "\<not> dominates scores i j" "\<not> dominates scores j i" by blast
  then show ?thesis
  proof cases
    case fwd
    then show ?thesis
      using pass_inv_step_fwd [OF inv [unfolded st] i j new fwd]
      by (simp add: compare_pair_def st dominates_def)
  next
    case bwd
    then have nf: "determine_dominance (scores ! i) (scores ! j) \<noteq> 1"
      using dominates_asym [OF bwd] by (simp add: dominates_def)
    have m: "determine_dominance (scores ! i) (scores ! j) = - 1"
      using bwd by (simp add: determine_dominance_minus dominates_def)
    from new have new': "\<not> seen ps j i" by (simp add: seen_sym)
    show ?thesis
      using pass_inv_step_fwd [OF inv [unfolded st] j i new' bwd] nf m
      by (simp add: compare_pair_def st pass_inv_swap [of scores ps i j])
  next
    case none
    then have "determine_dominance (scores ! i) (scores ! j) \<noteq> 1"
      "determine_dominance (scores ! i) (scores ! j) \<noteq> - 1"
      by (simp_all add: dominates_def determine_dominance_minus)
    then show ?thesis
      using pass_inv_none [OF inv none]
      by (simp add: compare_pair_def st)
  qed
qed

lemma pass_inv_fold:
  assumes "pass_inv scores [] st" "distinct ps" "\<forall>(i, j)\<in>set ps. i < j \<and> j < length scores"
  shows "pass_inv scores ps (fold (\<lambda>(i, j). compare_pair scores i j) ps st)"
  using assms(2,3)
proof (induction ps rule: rev_induct)
  case Nil
  then show ?case using assms(1) by simp
next
  case (snoc p ps)
  obtain i j where p: "p = (i, j)" by (cases p)
  from snoc.prems have ij: "i < j" "j < length scores" and notin: "(i, j) \<notin> set ps"
    and rest: "\<forall>(i, j)\<in>set ps. i < j \<and> j < length scores" and d: "distinct ps"
    by (auto simp: p)
  have "\<not> seen ps i j"
    using notin rest ij by (auto simp: seen_def)
  with snoc.IH [OF d rest] ij show ?case
    by (simp add: p pass_inv_step)
qed

lemma set_index_pairs: "set (index_pairs n) = {(i, j). i < j \<and> j < n}"
proof -
  have "(a, b) \<in> set (index_pairs n)" if "a < b" "b < n" for a b
  proof -
    have "a \<in> set [0..<n]" "(a, b) \<in> set (map (Pair a) [a + 1..<n])"
      using that by auto
    then show ?thesis unfolding index_pairs_def set_concat by fastforce
  qed
  moreover have "a < b \<and> b < n" if "(a, b) \<in> set (index_pairs n)" for a b
    using that by (auto simp: index_pairs_def)
  ultimately show ?thesis by auto
qed

lemma distinct_index_pairs: "distinct (index_pairs n)"
  unfolding index_pairs_def
proof (rule distinct_concat)
  have "x = y" if "x < n" "y < n" "map (Pair x) [x + 1..<n] = map (Pair y) [y + 1..<n]" for x y
    using arg_cong [OF that(3), of length] that(1,2) by simp
  then show "distinct (map (\<lambda>i. map (Pair i) [i + 1..<n]) [0..<n])"
    by (auto simp: distinct_map inj_on_def)
qed (auto simp: distinct_map inj_on_def)

lemma dominance_pass_correct:
  assumes "dominance_pass scores = (ds, dc)"
  shows "length ds = length scores \<and> length dc = length scores \<and>
     (\<forall>a<length scores. distinct (ds ! a) \<and>
         set (ds ! a) = {b. b < length scores \<and> dominates scores a b}) \<and>
     (\<forall>b<length scores. dc ! b = int (card {a. a < length scores \<and> dominates scores a b}))"
proof -
  let ?n = "length scores"
  have init: "pass_inv scores [] (replicate ?n [], replicate ?n 0)"
    by (simp add: pass_inv_def seen_def)
  have inv: "pass_inv scores (index_pairs ?n) (ds, dc)"
    using pass_inv_fold [OF init distinct_index_pairs [of ?n]] assms
    by (simp add: dominance_pass_flat set_index_pairs)
  have seen_all: "seen (index_pairs ?n) a b \<longleftrightarrow> a \<noteq> b \<and> a < ?n \<and> b < ?n" for a b
    by (auto simp: seen_def set_index_pairs)
  have D: "{b. seen (index_pairs ?n) a b \<and> dominates scores a b} = {b. b < ?n \<and> dominates scores a b}"
    if "a < ?n" for a
    using that dominates_irrefl [of scores] by (auto simp: seen_all)
  have C: "{a. seen (index_pairs ?n) a b \<and> dominates scores a b} = {a. a < ?n \<and> dominates scores a b}"
    if "b < ?n" for b
    using that dominates_irrefl [of scores] by (auto simp: seen_all)
  from inv show ?thesis
    by (simp add: pass_inv_def D C)
qed

lemma expand_front_flat:
  "expand_front ds cur dc = fold release (concat (map (\<lambda>i. ds ! i) cur)) (dc, [])"
  by (simp add: expand_front_def fold_concat fold_map comp_def)

lemma count_list_distinct: "distinct xs \<Longrightarrow> count_list xs x = (if x \<in> set xs then 1 else 0)"
  by (induction xs) auto

lemma count_list_concat_distinct:
  assumes "distinct cur" "\<forall>i\<in>set cur. distinct (f i)"
  shows "count_list (concat (map f cur)) j = card {i \<in> set cur. j \<in> set (f i)}"
  using assms
proof (induction cur)
  case Nil
  then show ?case by simp
next
  case (Cons a cur)
  let ?S = "{i \<in> set cur. j \<in> set (f i)}"
  have eq: "{i \<in> set (a # cur). j \<in> set (f i)} = (if j \<in> set (f a) then insert a ?S else ?S)"
    by auto
  have fresh: "a \<notin> ?S" and fin: "finite ?S"
    using Cons.prems by auto
  have IH: "count_list (concat (map f cur)) j = card ?S"
    using Cons by simp
  have da: "distinct (f a)" using Cons.prems by simp
  have "card (insert a ?S) = Suc (card ?S)"
    using fin fresh by (rule card_insert_disjoint)
  then show ?case
    unfolding eq using IH da
    by (simp add: count_list_distinct)
qed

lemma fold_release_spec:
  assumes "\<forall>j\<in>set js. j < length dc" "\<forall>j\<in>set js. int (count_list js j) \<le> dc ! j"
  shows "\<exists>dc' zs. fold release js (dc, nxt) = (dc', nxt @ zs) \<and> length dc' = length dc \<and>
     (\<forall>j<length dc. dc' ! j = dc ! j - int (count_list js j)) \<and>
     distinct zs \<and> set zs = {j \<in> set js. dc ! j = int (count_list js j)}"
  using assms
proof (induction js rule: rev_induct)
  case Nil
  then show ?case by simp
next
  case (snoc j js)
  have inr: "\<forall>x\<in>set js. x < length dc" and j: "j < length dc"
    using snoc.prems(1) by auto
  have enough: "\<forall>x\<in>set js. int (count_list js x) \<le> dc ! x"
  proof
    fix x assume "x \<in> set js"
    then have "int (count_list (js @ [j]) x) \<le> dc ! x"
      using snoc.prems(2) by simp
    then show "int (count_list js x) \<le> dc ! x"
      by (simp split: if_splits)
  qed
  have "int (count_list (js @ [j]) j) \<le> dc ! j"
    using snoc.prems(2) by simp
  then have jroom: "int (count_list js j) + 1 \<le> dc ! j"
    by simp
  from snoc.IH [OF inr enough] obtain dc0 zs0 where
    f0: "fold release js (dc, nxt) = (dc0, nxt @ zs0)" and l0: "length dc0 = length dc"
    and v0: "\<forall>x<length dc. dc0 ! x = dc ! x - int (count_list js x)"
    and d0: "distinct zs0" and s0: "set zs0 = {x \<in> set js. dc ! x = int (count_list js x)}"
    by blast
  let ?dc' = "dc0[j := dc0 ! j - 1]"
  let ?zs = "if ?dc' ! j = 0 then zs0 @ [j] else zs0"
  have step: "fold release (js @ [j]) (dc, nxt) = (?dc', nxt @ ?zs)"
    by (simp add: f0 release_def Let_def)
  have jz: "j \<notin> set zs0" using s0 jroom by auto
  have v: "\<forall>x<length dc. ?dc' ! x = dc ! x - int (count_list (js @ [j]) x)"
    using v0 l0 j by (auto simp: nth_list_update)
  have dj: "?dc' ! j = dc ! j - int (count_list js j) - 1"
    using v0 l0 j by simp
  have "x \<in> set ?zs \<longleftrightarrow> x \<in> set (js @ [j]) \<and> dc ! x = int (count_list (js @ [j]) x)" for x
  proof (cases "x = j")
    case True
    have "j \<in> set ?zs \<longleftrightarrow> ?dc' ! j = 0" using jz by simp
    also have "\<dots> \<longleftrightarrow> dc ! j = int (count_list (js @ [j]) j)" unfolding dj by auto
    finally show ?thesis using True by simp
  next
    case False
    then have "x \<in> set ?zs \<longleftrightarrow> x \<in> set zs0" by simp
    with False show ?thesis unfolding s0 by simp
  qed
  then have s: "set ?zs = {x \<in> set (js @ [j]). dc ! x = int (count_list (js @ [j]) x)}"
    by blast
  have "distinct ?zs" using d0 jz by simp
  with step l0 v s show ?case
    by (intro exI [of _ ?dc'] exI [of _ ?zs]) simp
qed

lemma expand_front_spec:
  assumes ds: "\<forall>a<length scores. distinct (ds ! a) \<and>
         set (ds ! a) = {b. b < length scores \<and> dominates scores a b}"
    and cur: "distinct cur" "set cur \<subseteq> {..<length scores}"
    and len: "length dc = length scores"
    and enough: "\<forall>j<length scores. int (card {i \<in> set cur. dominates scores i j}) \<le> dc ! j"
  shows "\<exists>dc' nxt. expand_front ds cur dc = (dc', nxt) \<and> length dc' = length scores \<and>
     (\<forall>j<length scores. dc' ! j = dc ! j - int (card {i \<in> set cur. dominates scores i j})) \<and>
     distinct nxt \<and>
     set nxt = {j. j < length scores \<and> (\<exists>i\<in>set cur. dominates scores i j) \<and> dc' ! j = 0}"
proof -
  let ?n = "length scores"
  let ?js = "concat (map (\<lambda>i. ds ! i) cur)"
  have dsi: "distinct (ds ! i)" "set (ds ! i) = {b. b < ?n \<and> dominates scores i b}"
    if "i \<in> set cur" for i
  proof -
    from that cur(2) have "i < ?n" by auto
    with ds show "distinct (ds ! i)" "set (ds ! i) = {b. b < ?n \<and> dominates scores i b}"
      by simp_all
  qed
  have mem: "j \<in> set ?js \<longleftrightarrow> j < ?n \<and> (\<exists>i\<in>set cur. dominates scores i j)" for j
    by (auto simp: dsi)
  have inr: "\<forall>j\<in>set ?js. j < length dc"
    using mem len by simp
  have cnt: "count_list ?js j = card {i \<in> set cur. dominates scores i j}" if "j < ?n" for j
  proof -
    have "{i \<in> set cur. j \<in> set (ds ! i)} = {i \<in> set cur. dominates scores i j}"
      using dsi(2) that by blast
    moreover have "\<forall>i\<in>set cur. distinct (ds ! i)" using dsi(1) by blast
    ultimately show ?thesis
      using count_list_concat_distinct [OF cur(1), of "\<lambda>i. ds ! i" j] by simp
  qed
  have enough': "\<forall>j\<in>set ?js. int (count_list ?js j) \<le> dc ! j"
  proof
    fix j assume "j \<in> set ?js"
    then have "j < ?n" using mem by blast
    then show "int (count_list ?js j) \<le> dc ! j" using enough cnt by simp
  qed
  from fold_release_spec [OF inr enough', of "[]"] obtain dc' zs where
    f: "fold release ?js (dc, []) = (dc', zs)" and l: "length dc' = length dc"
    and v: "\<forall>j<length dc. dc' ! j = dc ! j - int (count_list ?js j)"
    and d: "distinct zs" and s: "set zs = {j \<in> set ?js. dc ! j = int (count_list ?js j)}"
    by auto
  have v': "dc' ! j = dc ! j - int (card {i \<in> set cur. dominates scores i j})" if "j < ?n" for j
    using v len cnt that by simp
  have "j \<in> set zs \<longleftrightarrow> j < ?n \<and> (\<exists>i\<in>set cur. dominates scores i j) \<and> dc' ! j = 0" for j
  proof (cases "j < ?n")
    case True
    then show ?thesis
      unfolding s using mem [of j] v' [OF True] cnt [OF True] by simp
  next
    case False
    then show ?thesis unfolding s using mem [of j] by simp
  qed
  then have "set zs = {j. j < ?n \<and> (\<exists>i\<in>set cur. dominates scores i j) \<and> dc' ! j = 0}"
    by blast
  with f l d len v' show ?thesis
    by (simp add: expand_front_flat)
qed

lemma length_np_fill [simp]: "length (np_fill idx c a) = length a"
  unfolding np_fill_def by (induction idx arbitrary: a) simp_all

lemma nth_np_fill:
  "j < length a \<Longrightarrow> np_fill idx c a ! j = (if j \<in> set idx then c else a ! j)"
  unfolding np_fill_def
proof (induction idx arbitrary: a)
  case Nil
  then show ?case by simp
next
  case (Cons i idx)
  then show ?case by (auto simp: nth_list_update)
qed

lemma finite_doms [simp]: "finite (doms scores j)"
  by (simp add: doms_def)

lemma peel_step:
  assumes ds: "\<forall>a<length scores. distinct (ds ! a) \<and>
         set (ds ! a) = {b. b < length scores \<and> dominates scores a b}"
    and inv: "peel_inv scores dc cur k ranks fronts"
    and ne: "cur \<noteq> []"
  shows "\<exists>dc' nxt. expand_front ds cur dc = (dc', nxt) \<and>
     peel_inv scores dc' nxt (Suc k) (np_fill cur k ranks) (fronts @ [cur]) \<and>
     card {j. j < length scores \<and> np_fill cur k ranks ! j = 0}
       < card {j. j < length scores \<and> ranks ! j = 0}"
proof -
  let ?n = "length scores"
  let ?R' = "np_fill cur k ranks"
  let ?A = "\<lambda>j. {i \<in> doms scores j. ranks ! i = 0}"
  let ?B = "\<lambda>j. {i \<in> set cur. dominates scores i j}"
  from inv have len: "length dc = ?n" "length ranks = ?n" and k: "0 < k"
    and below: "\<And>j. j < ?n \<Longrightarrow> ranks ! j < k"
    and dcur: "distinct cur"
    and scur: "set cur = {j. j < ?n \<and> ranks ! j = 0 \<and> dc ! j = 0}"
    and cnt: "\<And>j. j < ?n \<Longrightarrow> dc ! j = int (card (?A j))"
    and ok: "\<And>j. j < ?n \<Longrightarrow> 0 < ranks ! j \<Longrightarrow> rank_ok scores ranks j"
    and pred: "\<And>j. j \<in> set cur \<Longrightarrow> k = 1 \<or> (\<exists>i\<in>doms scores j. Suc (ranks ! i) = k)"
    and lf: "Suc (length fronts) = k"
    and fr: "\<And>r. r < length fronts \<Longrightarrow> fronts ! r \<noteq> [] \<and> distinct (fronts ! r) \<and>
         set (fronts ! r) = {j. j < ?n \<and> ranks ! j = Suc r}"
    unfolding peel_inv_def by blast+
  have curD: "j < ?n" "ranks ! j = 0" "dc ! j = 0" if "j \<in> set cur" for j
    using that scur by auto
  have sub: "set cur \<subseteq> {..<?n}" using curD(1) by auto
  have R': "?R' ! j = (if j \<in> set cur then k else ranks ! j)" if "j < ?n" for j
    using that len by (simp add: nth_np_fill)
  have R'0: "?R' ! j = 0 \<longleftrightarrow> ranks ! j = 0 \<and> j \<notin> set cur" if "j < ?n" for j
    using R' [OF that] k by auto
  have BA: "?B j \<subseteq> ?A j" for j
    using curD by (auto simp: doms_def)
  have finA: "finite (?A j)" for j by simp
  have finB: "finite (?B j)" for j by simp
  have enough: "\<forall>j<?n. int (card (?B j)) \<le> dc ! j"
    using cnt card_mono [OF finA BA] by simp
  from expand_front_spec [OF ds dcur sub len(1) enough] obtain dc' nxt where
    ex: "expand_front ds cur dc = (dc', nxt)" and len': "length dc' = ?n"
    and v: "\<And>j. j < ?n \<Longrightarrow> dc' ! j = dc ! j - int (card (?B j))"
    and dn: "distinct nxt"
    and sn: "set nxt = {j. j < ?n \<and> (\<exists>i\<in>set cur. dominates scores i j) \<and> dc' ! j = 0}"
    by blast
  have AB: "?A j - ?B j = {i \<in> doms scores j. ?R' ! i = 0}" for j
  proof -
    have "i \<in> ?A j - ?B j \<longleftrightarrow> i \<in> doms scores j \<and> ?R' ! i = 0" for i
    proof (cases "i \<in> doms scores j")
      case True
      then have "i < ?n" "dominates scores i j" by (simp_all add: doms_def)
      then show ?thesis using R'0 [of i] True by auto
    next
      case False
      then show ?thesis by simp
    qed
    then show ?thesis by blast
  qed
  have cnt': "dc' ! j = int (card {i \<in> doms scores j. ?R' ! i = 0})" if "j < ?n" for j
  proof -
    have "card (?A j - ?B j) = card (?A j) - card (?B j)"
      using finB BA by (rule card_Diff_subset)
    moreover have "card (?B j) \<le> card (?A j)" using finA BA by (rule card_mono)
    ultimately show ?thesis
      using v [OF that] cnt [OF that] unfolding AB by simp
  qed
  have zeroA: "dc ! j = 0 \<longleftrightarrow> ?A j = {}" if "j < ?n" for j
    using cnt [OF that] finA by simp
  \<comment> \<open>the next front\<close>
  have nxt_iff: "j \<in> set nxt \<longleftrightarrow> j < ?n \<and> ?R' ! j = 0 \<and> dc' ! j = 0" for j
  proof (cases "j < ?n")
    case False
    then show ?thesis using sn by simp
  next
    case True
    show ?thesis
    proof
      assume "j \<in> set nxt"
      then obtain i where i: "i \<in> set cur" "dominates scores i j" and z: "dc' ! j = 0"
        using sn by auto
      have iA: "i \<in> ?A j" using i curD [OF i(1)] by (simp add: doms_def)
      then have "dc ! j \<noteq> 0" using zeroA [OF True] by auto
      then have ncur: "j \<notin> set cur" using curD(3) by auto
      have "ranks ! j = 0"
      proof (rule ccontr)
        assume "ranks ! j \<noteq> 0"
        then have "rank_ok scores ranks j" using ok [OF True] by simp
        then have "0 < ranks ! i" using iA by (auto simp: rank_ok_def)
        then show False using curD(2) [OF i(1)] by simp
      qed
      with ncur True z show "j < ?n \<and> ?R' ! j = 0 \<and> dc' ! j = 0"
        by (simp add: R'0)
    next
      assume h: "j < ?n \<and> ?R' ! j = 0 \<and> dc' ! j = 0"
      then have r0: "ranks ! j = 0" and ncur: "j \<notin> set cur" and z: "dc' ! j = 0"
        using R'0 [OF True] by auto
      from r0 ncur True have "dc ! j \<noteq> 0" using scur by auto
      then obtain i where iA: "i \<in> ?A j" using zeroA [OF True] by auto
      have "{i \<in> doms scores j. ?R' ! i = 0} = {}"
        using cnt' [OF True] z by simp
      then have "i \<notin> ?A j - ?B j" unfolding AB by simp
      with iA have "i \<in> ?B j" by simp
      then show "j \<in> set nxt" using sn True z by auto
    qed
  qed
  have below': "?R' ! j < Suc k" if "j < ?n" for j
    using R' [OF that] below [OF that] by simp
  have ok': "rank_ok scores ?R' j" if j: "j < ?n" and pos: "0 < ?R' ! j" for j
  proof (cases "j \<in> set cur")
    case True
    then have Rj: "?R' ! j = k" using R' [OF j] by simp
    have "?A j = {}" using zeroA [OF j] curD(3) [OF True] by simp
    then have dpos: "0 < ranks ! i" if "i \<in> doms scores j" for i using that by auto
    have keep: "?R' ! i = ranks ! i" if "i \<in> doms scores j" for i
    proof -
      have "i < ?n" using that by (simp add: doms_def)
      moreover have "i \<notin> set cur" using dpos [OF that] curD(2) [of i] by auto
      ultimately show ?thesis by (simp add: R')
    qed
    have p1: "\<forall>i\<in>doms scores j. 0 < ?R' ! i \<and> ?R' ! i < ?R' ! j"
    proof
      fix i assume i: "i \<in> doms scores j"
      then have "i < ?n" by (simp add: doms_def)
      then show "0 < ?R' ! i \<and> ?R' ! i < ?R' ! j"
        using keep [OF i] dpos [OF i] below [of i] Rj by simp
    qed
    have p2: "?R' ! j = 1 \<or> (\<exists>i\<in>doms scores j. Suc (?R' ! i) = ?R' ! j)"
      using pred [OF True] keep Rj by auto
    from p1 p2 show ?thesis unfolding rank_ok_def by blast
  next
    case False
    then have Rj: "?R' ! j = ranks ! j" using R' [OF j] by simp
    then have old: "rank_ok scores ranks j" using ok [OF j] pos by simp
    have keep: "?R' ! i = ranks ! i" if "i \<in> doms scores j" for i
    proof -
      have "i < ?n" using that by (simp add: doms_def)
      moreover have "0 < ranks ! i" using old that by (auto simp: rank_ok_def)
      then have "i \<notin> set cur" using curD(2) [of i] by auto
      ultimately show ?thesis by (simp add: R')
    qed
    show ?thesis using old keep Rj unfolding rank_ok_def by auto
  qed
  have pred': "Suc k = 1 \<or> (\<exists>i\<in>doms scores j. Suc (?R' ! i) = Suc k)" if "j \<in> set nxt" for j
  proof -
    from that obtain i where i: "i \<in> set cur" "dominates scores i j"
      using sn by auto
    then have "i \<in> doms scores j" "?R' ! i = k"
      using curD(1) [OF i(1)] R' [of i] by (simp_all add: doms_def)
    then show ?thesis by auto
  qed
  have fr': "(fronts @ [cur]) ! r \<noteq> [] \<and> distinct ((fronts @ [cur]) ! r) \<and>
         set ((fronts @ [cur]) ! r) = {j. j < ?n \<and> ?R' ! j = Suc r}"
    if "r < length (fronts @ [cur])" for r
  proof (cases "r < length fronts")
    case True
    then have "Suc r \<noteq> k" using lf by simp
    then have "{j. j < ?n \<and> ?R' ! j = Suc r} = {j. j < ?n \<and> ranks ! j = Suc r}"
      using R' curD(2) by (auto split: if_splits)
    then show ?thesis using fr [OF True] True by (simp add: nth_append)
  next
    case False
    then have r: "r = length fronts" using that by simp
    then have rk: "Suc r = k" using lf by simp
    have "j < ?n \<and> ?R' ! j = k \<longleftrightarrow> j \<in> set cur" for j
    proof (cases "j \<in> set cur")
      case True
      then show ?thesis using curD(1) [OF True] R' [of j] by simp
    next
      case False
      then show ?thesis using R' [of j] below [of j] by auto
    qed
    then have "{j. j < ?n \<and> ?R' ! j = k} = set cur"
      by blast
    then show ?thesis using r rk ne dcur by simp
  qed
  have inv': "peel_inv scores dc' nxt (Suc k) ?R' (fronts @ [cur])"
    unfolding peel_inv_def
  proof (intro conjI)
    show "length dc' = ?n" by (rule len')
    show "length ?R' = ?n" using len by simp
    show "0 < Suc k" by simp
    show "\<forall>j<?n. ?R' ! j < Suc k" using below' by blast
    show "distinct nxt" by (rule dn)
    show "set nxt = {j. j < ?n \<and> ?R' ! j = 0 \<and> dc' ! j = 0}" using nxt_iff by blast
    show "\<forall>j<?n. dc' ! j = int (card {i \<in> doms scores j. ?R' ! i = 0})" using cnt' by blast
    show "\<forall>j<?n. 0 < ?R' ! j \<longrightarrow> rank_ok scores ?R' j" using ok' by blast
    show "\<forall>j\<in>set nxt. Suc k = 1 \<or> (\<exists>i\<in>doms scores j. Suc (?R' ! i) = Suc k)"
      using pred' by blast
    show "Suc (length (fronts @ [cur])) = Suc k" using lf by simp
    show "\<forall>r<length (fronts @ [cur]). (fronts @ [cur]) ! r \<noteq> [] \<and>
        distinct ((fronts @ [cur]) ! r) \<and>
        set ((fronts @ [cur]) ! r) = {j. j < ?n \<and> ?R' ! j = Suc r}"
      using fr' by blast
  qed
  let ?U = "{j. j < ?n \<and> ranks ! j = 0}"
  have U': "{j. j < ?n \<and> ?R' ! j = 0} = ?U - set cur"
    using R'0 by auto
  have fin: "finite ?U" by simp
  have subU: "set cur \<subseteq> ?U" using curD by auto
  have "card (?U - set cur) = card ?U - card (set cur)"
    using subU by (simp add: card_Diff_subset)
  moreover have "0 < card (set cur)" using ne by (simp add: card_gt_0_iff)
  moreover have "card (set cur) \<le> card ?U" using fin subU by (rule card_mono)
  ultimately have "card (?U - set cur) < card ?U" by linarith
  then have "card {j. j < ?n \<and> ?R' ! j = 0} < card ?U" unfolding U' .
  with ex inv' show ?thesis by blast
qed

lemma np_all_le_sum:
  "length a = length b \<Longrightarrow> np_all_le a b \<Longrightarrow> sum_list a \<le> sum_list b"
  by (induction a b rule: list_induct2) (auto simp: np_all_le_def)

lemma dominance_sum_less:
  "length a = length b \<Longrightarrow> np_all_le a b \<Longrightarrow> np_any_lt a b \<Longrightarrow> sum_list a < sum_list b"
proof (induction a b rule: list_induct2)
  case Nil
  then show ?case by (simp add: np_any_lt_def)
next
  case (Cons x xs y ys)
  from Cons.prems have xy: "x \<le> y" and rest: "np_all_le xs ys"
    by (simp_all add: np_all_le_def)
  show ?case
  proof (cases "x < y")
    case True
    with np_all_le_sum [OF Cons.hyps rest] show ?thesis by simp
  next
    case False
    with Cons.prems have "np_any_lt xs ys" by (simp add: np_any_lt_def)
    with Cons.IH rest xy show ?thesis by simp
  qed
qed

lemma dominates_sum_less:
  assumes "is_matrix n_obj scores" "i < length scores" "j < length scores" "dominates scores i j"
  shows "sum_list (scores ! i) < sum_list (scores ! j)"
proof -
  have "length (scores ! i) = length (scores ! j)"
    using assms(1-3) by (simp add: is_matrix_def list_all_length)
  moreover have "np_all_le (scores ! i) (scores ! j) \<and> np_any_lt (scores ! i) (scores ! j)"
    using assms(4) by (simp add: dominates_def determine_dominance_def split: if_splits)
  ultimately show ?thesis by (simp add: dominance_sum_less)
qed

lemma peel_final:
  assumes mat: "is_matrix n_obj scores" and inv: "peel_inv scores dc [] k ranks fronts"
  shows "sorted_out scores ranks fronts"
proof -
  let ?n = "length scores"
  let ?U = "{j. j < ?n \<and> ranks ! j = 0}"
  let ?f = "\<lambda>j. sum_list (scores ! j)"
  from inv have len: "length ranks = ?n"
    and below: "\<And>j. j < ?n \<Longrightarrow> ranks ! j < k"
    and none0: "set ([]::nat list) = {j. j < ?n \<and> ranks ! j = 0 \<and> dc ! j = 0}"
    and cnt: "\<And>j. j < ?n \<Longrightarrow> dc ! j = int (card {i \<in> doms scores j. ranks ! i = 0})"
    and ok: "\<And>j. j < ?n \<Longrightarrow> 0 < ranks ! j \<Longrightarrow> rank_ok scores ranks j"
    and lf: "Suc (length fronts) = k"
    and fr: "\<forall>r<length fronts. fronts ! r \<noteq> [] \<and> distinct (fronts ! r) \<and>
         set (fronts ! r) = {j. j < ?n \<and> ranks ! j = Suc r}"
    unfolding peel_inv_def by blast+
  from none0 have none: "{j. j < ?n \<and> ranks ! j = 0 \<and> dc ! j = 0} = {}" by simp
  have "?U = {}"
  proof (rule ccontr)
    assume ne: "?U \<noteq> {}"
    have "finite (?f ` ?U)" "?f ` ?U \<noteq> {}" using ne by simp_all
    from ex_min_if_finite [OF this] obtain j where j: "j \<in> ?U"
      and least: "\<And>i. i \<in> ?U \<Longrightarrow> \<not> ?f i < ?f j"
      by blast
    from j have jn: "j < ?n" and r0: "ranks ! j = 0" by simp_all
    with none have "dc ! j \<noteq> 0" by blast
    with cnt [OF jn] have "{i \<in> doms scores j. ranks ! i = 0} \<noteq> {}" by auto
    then obtain i where i: "i \<in> doms scores j" "ranks ! i = 0" by blast
    then have "i < ?n" "dominates scores i j" by (simp_all add: doms_def)
    then have "?f i < ?f j" using dominates_sum_less [OF mat _ jn] by simp
    moreover have "i \<in> ?U" using i \<open>i < ?n\<close> by simp
    ultimately show False using least by blast
  qed
  then have pos: "0 < ranks ! j" if "j < ?n" for j using that by auto
  have "ranks ! j \<le> length fronts" if "j < ?n" for j
    using below [OF that] lf by simp
  with pos ok len fr show ?thesis
    unfolding sorted_out_def by simp
qed

lemma assign_fronts_total:
  assumes ds: "\<forall>a<length scores. distinct (ds ! a) \<and>
         set (ds ! a) = {b. b < length scores \<and> dominates scores a b}"
    and mat: "is_matrix n_obj scores"
    and inv: "peel_inv scores dc cur k ranks fronts"
  shows "\<exists>ranks' fronts'. assign_fronts ds dc cur k ranks fronts = Some (ranks', fronts') \<and>
     sorted_out scores ranks' fronts'"
  using inv
proof (induction "card {j. j < length scores \<and> ranks ! j = 0}"
    arbitrary: dc cur k ranks fronts rule: less_induct)
  case less
  show ?case
  proof (cases "cur = []")
    case True
    with peel_final [OF mat] less.prems show ?thesis
      by (simp add: assign_fronts.simps)
  next
    case False
    from peel_step [OF ds less.prems False] obtain dc' nxt where
      ex: "expand_front ds cur dc = (dc', nxt)"
      and inv': "peel_inv scores dc' nxt (Suc k) (np_fill cur k ranks) (fronts @ [cur])"
      and dec: "card {j. j < length scores \<and> np_fill cur k ranks ! j = 0}
         < card {j. j < length scores \<and> ranks ! j = 0}"
      by blast
    from less.hyps [OF dec inv'] obtain ranks' fronts' where
      "assign_fronts ds dc' nxt (Suc k) (np_fill cur k ranks) (fronts @ [cur]) = Some (ranks', fronts')"
      "sorted_out scores ranks' fronts'" by blast
    then show ?thesis
      using False ex by (subst assign_fronts.simps) simp
  qed
qed

lemma peel_inv_init:
  assumes "dominance_pass scores = (ds, dc)"
  shows "peel_inv scores dc (np_where (\<lambda>c. c = 0) dc) 1 (replicate (length scores) 0) []"
proof -
  let ?n = "length scores"
  from dominance_pass_correct [OF assms] have len: "length dc = ?n"
    and cnt: "\<And>b. b < ?n \<Longrightarrow> dc ! b = int (card {a. a < ?n \<and> dominates scores a b})"
    by simp_all
  have A: "{i \<in> doms scores j. replicate ?n (0::nat) ! i = 0} = {a. a < ?n \<and> dominates scores a j}" for j
    by (auto simp: doms_def)
  have "set (np_where (\<lambda>c. c = 0) dc) = {j. j < ?n \<and> replicate ?n (0::nat) ! j = 0 \<and> dc ! j = 0}"
    using len by (auto simp: np_where_def)
  moreover have "distinct (np_where (\<lambda>c. c = 0) dc)" by (simp add: np_where_def)
  ultimately show ?thesis
    unfolding peel_inv_def using len cnt by (simp add: A)
qed

lemma non_dominated_sort_fronts:
  assumes mat: "is_matrix n_obj scores"
  shows "\<exists>ranks fronts. sorted_out scores ranks fronts \<and>
     non_dominated_sort n_obj scores =
       Some (ranks, fold (front_crowding scores n_obj) fronts (replicate (length scores) (Fin 0)))"
proof -
  obtain ds dc where pass: "dominance_pass scores = (ds, dc)" by (cases "dominance_pass scores")
  from dominance_pass_correct [OF pass] have ds: "\<forall>a<length scores. distinct (ds ! a) \<and>
         set (ds ! a) = {b. b < length scores \<and> dominates scores a b}" by simp
  from assign_fronts_total [OF ds mat peel_inv_init [OF pass]] obtain ranks fronts where
    af: "assign_fronts ds dc (np_where (\<lambda>c. c = 0) dc) 1 (replicate (length scores) 0) [] = Some (ranks, fronts)"
    and so: "sorted_out scores ranks fronts" by blast
  then have "non_dominated_sort n_obj scores =
       Some (ranks, fold (front_crowding scores n_obj) fronts (replicate (length scores) (Fin 0)))"
    by (simp add: non_dominated_sort_def Let_def pass)
  with so show ?thesis by blast
qed

section \<open>Properties of the dominance comparison\<close>

lemma np_all_le_nth:
  "length a = length b \<Longrightarrow> np_all_le a b \<longleftrightarrow> (\<forall>i<length a. a ! i \<le> b ! i)"
  by (auto simp: np_all_le_def list_all_iff set_zip)

lemma np_any_lt_nth:
  "length a = length b \<Longrightarrow> np_any_lt a b \<longleftrightarrow> (\<exists>i<length a. a ! i < b ! i)"
  by (auto simp: np_any_lt_def list_ex_iff set_zip)

text \<open>
  Claim C9.  For equal-length objective vectors, \<open>determine_dominance a b\<close> is \<open>1\<close> when
  every coordinate of \<open>a\<close> is at most that of \<open>b\<close> and one is strictly smaller, \<open>-1\<close> under
  the same condition with the roles swapped, and \<open>0\<close> otherwise, in particular on equal
  vectors; the two scenarios of the specification evaluate to \<open>1\<close> and \<open>0\<close>.
\<close>

theorem determine_dominance_three_valued:
  "length a = length b \<Longrightarrow>
     determine_dominance a b =
       (if (\<forall>i<length a. a ! i \<le> b ! i) \<and> (\<exists>i<length a. a ! i < b ! i) then 1
        else if (\<forall>i<length a. b ! i \<le> a ! i) \<and> (\<exists>i<length a. b ! i < a ! i) then - 1
        else 0)
     \<and> determine_dominance a a = 0
     \<and> determine_dominance [1, 2, 3] [2, 3, 4] = 1
     \<and> determine_dominance [1, 5] [5, 1] = 0"
proof -
  assume len: "length a = length b"
  have gen: "determine_dominance a b =
       (if (\<forall>i<length a. a ! i \<le> b ! i) \<and> (\<exists>i<length a. a ! i < b ! i) then 1
        else if (\<forall>i<length a. b ! i \<le> a ! i) \<and> (\<exists>i<length a. b ! i < a ! i) then - 1
        else 0)"
    using len np_all_le_nth [of a b] np_any_lt_nth [of a b]
      np_all_le_nth [of b a] np_any_lt_nth [of b a]
    by (simp add: determine_dominance_def)
  have refl: "determine_dominance a a = 0"
    by (simp add: determine_dominance_def np_any_lt_nth)
  have s1: "determine_dominance [1, 2, 3] [2, 3, 4] = 1"
    by (simp add: determine_dominance_def np_all_le_def np_any_lt_def)
  have s2: "determine_dominance [1, 5] [5, 1] = 0"
    by (simp add: determine_dominance_def np_all_le_def np_any_lt_def)
  from gen refl s1 s2 show ?thesis by blast
qed

theorem determine_dominance_three_valued_witness:
  "length [1, 3, 2 :: real] = length [1, 3, 3 :: real]
   \<and> determine_dominance [1, 3, 2] [1, 3, 3] = 1"
  using determine_dominance_three_valued [of "[1, 3, 2]" "[1, 3, 3]"]
  by (simp add: All_less_Suc Ex_less_Suc)

section \<open>Ranks assigned by the sort\<close>

lemma rank_one_iff:
  assumes "rank_ok scores ranks j" "0 < ranks ! j"
  shows "ranks ! j = 1 \<longleftrightarrow> doms scores j = {}"
proof
  assume one: "ranks ! j = 1"
  show "doms scores j = {}"
  proof (rule ccontr)
    assume "doms scores j \<noteq> {}"
    then obtain i where "i \<in> doms scores j" by blast
    with assms(1) have "0 < ranks ! i \<and> ranks ! i < ranks ! j" by (simp add: rank_ok_def)
    with one show False by simp
  qed
next
  assume "doms scores j = {}"
  with assms(1) show "ranks ! j = 1" by (simp add: rank_ok_def)
qed

lemma doms_empty_iff:
  "doms scores j = {} \<longleftrightarrow> (\<forall>i<length scores. determine_dominance (scores ! i) (scores ! j) \<noteq> 1)"
  by (auto simp: doms_def dominates_def)

text \<open>
  Claim C6.  On a score matrix the sort returns, and the ranks it returns are those of the
  peeling process: every individual has a rank of at least 1; the individuals of rank 1
  are exactly those that no individual of the input dominates; every dominator of an
  individual has a smaller rank; an individual of rank above 1 has a dominator in the
  front just before its own (its count reached zero when that front was processed).
  Consequently, when all individuals are pairwise mutually non-dominated, every
  individual has rank 1.
\<close>

theorem non_dominated_sort_ranks:
  assumes "is_matrix n_obj scores"
  shows "\<exists>ranks crowding.
     non_dominated_sort n_obj scores = Some (ranks, crowding) \<and>
     length ranks = length scores \<and>
     (\<forall>j<length scores.
        1 \<le> ranks ! j \<and>
        (ranks ! j = 1 \<longleftrightarrow>
           (\<forall>i<length scores. determine_dominance (scores ! i) (scores ! j) \<noteq> 1)) \<and>
        (\<forall>i<length scores.
           determine_dominance (scores ! i) (scores ! j) = 1 \<longrightarrow> ranks ! i < ranks ! j) \<and>
        (1 < ranks ! j \<longrightarrow>
           (\<exists>i<length scores. determine_dominance (scores ! i) (scores ! j) = 1 \<and>
              Suc (ranks ! i) = ranks ! j))) \<and>
     ((\<forall>i<length scores. \<forall>j<length scores.
          determine_dominance (scores ! i) (scores ! j) = 0) \<longrightarrow>
        (\<forall>j<length scores. ranks ! j = 1))"
proof -
  from non_dominated_sort_fronts [OF assms] obtain ranks fronts where
    so: "sorted_out scores ranks fronts"
    and res: "non_dominated_sort n_obj scores =
       Some (ranks, fold (front_crowding scores n_obj) fronts (replicate (length scores) (Fin 0)))"
    by blast
  let ?n = "length scores"
  from so have len: "length ranks = ?n"
    and pos: "\<And>j. j < ?n \<Longrightarrow> 0 < ranks ! j"
    and ok: "\<And>j. j < ?n \<Longrightarrow> rank_ok scores ranks j"
    by (simp_all add: sorted_out_def)
  have per: "1 \<le> ranks ! j \<and>
        (ranks ! j = 1 \<longleftrightarrow>
           (\<forall>i<?n. determine_dominance (scores ! i) (scores ! j) \<noteq> 1)) \<and>
        (\<forall>i<?n. determine_dominance (scores ! i) (scores ! j) = 1 \<longrightarrow> ranks ! i < ranks ! j) \<and>
        (1 < ranks ! j \<longrightarrow>
           (\<exists>i<?n. determine_dominance (scores ! i) (scores ! j) = 1 \<and>
              Suc (ranks ! i) = ranks ! j))" if j: "j < ?n" for j
  proof -
    have a: "1 \<le> ranks ! j" using pos [OF j] by simp
    have b: "ranks ! j = 1 \<longleftrightarrow> (\<forall>i<?n. determine_dominance (scores ! i) (scores ! j) \<noteq> 1)"
      using rank_one_iff [OF ok [OF j] pos [OF j]] by (simp add: doms_empty_iff)
    have c: "\<forall>i<?n. determine_dominance (scores ! i) (scores ! j) = 1 \<longrightarrow> ranks ! i < ranks ! j"
      using ok [OF j] by (simp add: rank_ok_def doms_def dominates_def)
    have d: "1 < ranks ! j \<longrightarrow>
           (\<exists>i<?n. determine_dominance (scores ! i) (scores ! j) = 1 \<and> Suc (ranks ! i) = ranks ! j)"
      using ok [OF j] by (auto simp: rank_ok_def doms_def dominates_def)
    from a b c d show ?thesis by blast
  qed
  have closure: "\<forall>j<?n. ranks ! j = 1"
    if "\<forall>i<?n. \<forall>j<?n. determine_dominance (scores ! i) (scores ! j) = 0"
  proof (intro allI impI)
    fix j assume j: "j < ?n"
    with that have "\<forall>i<?n. determine_dominance (scores ! i) (scores ! j) \<noteq> 1" by simp
    with per [OF j] show "ranks ! j = 1" by blast
  qed
  from res len per closure show ?thesis by blast
qed

theorem non_dominated_sort_ranks_witness:
  "is_matrix 2 [[1, 2], [2, 3], [0, 5], [3, 3]] \<and>
   (\<exists>ranks crowding.
      non_dominated_sort 2 [[1, 2], [2, 3], [0, 5], [3, 3]] = Some (ranks, crowding) \<and>
      length ranks = 4 \<and> 1 \<le> ranks ! 3)"
proof -
  have m: "is_matrix 2 [[1, 2], [2, 3], [0, 5], [3, 3]]"
    by (simp add: is_matrix_def)
  from non_dominated_sort_ranks [OF m] obtain ranks crowding where
    "non_dominated_sort 2 [[1, 2], [2, 3], [0, 5], [3, 3]] = Some (ranks, crowding)"
    "length ranks = 4" "1 \<le> ranks ! 3"
    by auto
  with m show ?thesis by blast
qed

lemma sorted_out_rank_set:
  assumes "sorted_out scores ranks fronts"
  shows "set ranks = {1..length fronts}"
proof -
  let ?n = "length scores"
  from assms have len: "length ranks = ?n"
    and rng: "\<And>j. j < ?n \<Longrightarrow> 0 < ranks ! j \<and> ranks ! j \<le> length fronts"
    and fr: "\<And>r. r < length fronts \<Longrightarrow> fronts ! r \<noteq> [] \<and>
         set (fronts ! r) = {j. j < ?n \<and> ranks ! j = Suc r}"
    by (simp_all add: sorted_out_def)
  have "x \<in> {1..length fronts}" if "x \<in> set ranks" for x
  proof -
    from that obtain j where "j < ?n" "ranks ! j = x"
      using len by (auto simp: in_set_conv_nth)
    with rng [of j] show ?thesis by auto
  qed
  moreover have "x \<in> set ranks" if "x \<in> {1..length fronts}" for x
  proof -
    from that obtain r where r: "r < length fronts" "x = Suc r"
      by (cases x) auto
    with fr [OF r(1)] obtain j where "j \<in> set (fronts ! r)"
      by (cases "fronts ! r") auto
    with fr [OF r(1)] r have "j < ?n" "ranks ! j = x" by auto
    with len show ?thesis by (auto simp: in_set_conv_nth)
  qed
  ultimately show ?thesis by blast
qed

text \<open>
  Claim C10.  On a nonempty score matrix the sort returns ranks that are all at least 1
  and that form the contiguous range \<open>1, \<dots>, K\<close> for some \<open>K \<ge> 1\<close>; in particular some
  individual has rank 1, so the index set \<^verbatim>\<open>np.where(ranks == 1)[0]\<close> read by the
  generation loop is not empty and its fallback branch is not taken.
\<close>

theorem non_dominated_sort_rank_range:
  assumes "is_matrix n_obj scores" and "scores \<noteq> []"
  shows "\<exists>ranks crowding K.
     non_dominated_sort n_obj scores = Some (ranks, crowding) \<and>
     length ranks = length scores \<and>
     list_all (\<lambda>r. 1 \<le> r) ranks \<and>
     1 \<le> K \<and> set ranks = {1..K} \<and>
     np_where (\<lambda>r. r = 1) ranks \<noteq> []"
proof -
  from non_dominated_sort_fronts [OF assms(1)] obtain ranks fronts where
    so: "sorted_out scores ranks fronts"
    and res: "non_dominated_sort n_obj scores =
       Some (ranks, fold (front_crowding scores n_obj) fronts (replicate (length scores) (Fin 0)))"
    by blast
  from so have len: "length ranks = length scores" by (simp add: sorted_out_def)
  have rs: "set ranks = {1..length fronts}" by (rule sorted_out_rank_set [OF so])
  from assms(2) len have "ranks \<noteq> []" by auto
  then have "set ranks \<noteq> {}" by simp
  with rs have K: "1 \<le> length fronts" by auto
  have ge: "list_all (\<lambda>r. 1 \<le> r) ranks"
    using rs by (auto simp: list_all_iff)
  from K rs have "1 \<in> set ranks" by auto
  then obtain j where "j < length ranks" "ranks ! j = 1"
    by (auto simp: in_set_conv_nth)
  then have "j \<in> set (np_where (\<lambda>r. r = 1) ranks)"
    by (simp add: np_where_def)
  then have "np_where (\<lambda>r. r = 1) ranks \<noteq> []" by auto
  with res len ge K rs show ?thesis by blast
qed

theorem non_dominated_sort_rank_range_witness:
  "is_matrix 2 [[1, 2], [2, 3], [0, 5], [3, 3]] \<and> [[1, 2], [2, 3], [0, 5], [3, 3 :: real]] \<noteq> [] \<and>
   (\<exists>ranks crowding K.
      non_dominated_sort 2 [[1, 2], [2, 3], [0, 5], [3, 3]] = Some (ranks, crowding) \<and>
      set ranks = {1..K} \<and> np_where (\<lambda>r. r = 1) ranks \<noteq> [])"
proof -
  have m: "is_matrix 2 [[1, 2], [2, 3], [0, 5], [3, 3]]"
    by (simp add: is_matrix_def)
  have ne: "[[1, 2], [2, 3], [0, 5], [3, 3 :: real]] \<noteq> []" by simp
  from non_dominated_sort_rank_range [OF m ne] m show ?thesis by blast
qed

section \<open>Crowding distances\<close>

lemma length_argsort [simp]: "length (argsort xs) = length xs"
  by (simp add: argsort_def)

lemma set_argsort [simp]: "set (argsort xs) = {..<length xs}"
  by (auto simp: argsort_def)

lemma distinct_argsort [simp]: "distinct (argsort xs)"
  by (simp add: argsort_def)

lemma sorted_argsort: "sorted (map (\<lambda>i. xs ! i) (argsort xs))"
  unfolding argsort_def by (rule sorted_sort_key)

lemma argsort_nth_less: "p < length xs \<Longrightarrow> argsort xs ! p < length xs"
  using nth_mem [of p "argsort xs"] by simp

lemma argsort_surj:
  assumes "j < length xs"
  shows "\<exists>q<length xs. argsort xs ! q = j"
proof -
  have "j \<in> set (argsort xs)" using assms by simp
  then show ?thesis unfolding in_set_conv_nth by auto
qed

lemma argsort_mono:
  assumes "p \<le> q" "q < length xs"
  shows "xs ! (argsort xs ! p) \<le> xs ! (argsort xs ! q)"
proof -
  have "map (\<lambda>i. xs ! i) (argsort xs) ! p \<le> map (\<lambda>i. xs ! i) (argsort xs) ! q"
    using assms by (intro sorted_nth_mono [OF sorted_argsort]) simp_all
  then show ?thesis using assms by simp
qed

lemma argsort_first_Min:
  assumes "xs \<noteq> []"
  shows "xs ! (argsort xs ! 0) = Min (set xs)"
proof -
  have n: "0 < length xs" using assms by simp
  have "xs ! (argsort xs ! 0) \<le> y" if "y \<in> set xs" for y
  proof -
    from that obtain j where j: "j < length xs" "xs ! j = y"
      unfolding in_set_conv_nth by blast
    from argsort_surj [OF j(1)] obtain q where q: "q < length xs" "argsort xs ! q = j"
      by blast
    from argsort_mono [of 0 q xs] q j show ?thesis by simp
  qed
  moreover have "xs ! (argsort xs ! 0) \<in> set xs"
    using n argsort_nth_less [of 0 xs] by simp
  ultimately have "Min (set xs) = xs ! (argsort xs ! 0)"
    by (intro Min_eqI) simp_all
  then show ?thesis by simp
qed

lemma argsort_last_Max:
  assumes "xs \<noteq> []"
  shows "xs ! (argsort xs ! (length xs - 1)) = Max (set xs)"
proof -
  have n: "0 < length xs" using assms by simp
  have "y \<le> xs ! (argsort xs ! (length xs - 1))" if "y \<in> set xs" for y
  proof -
    from that obtain j where j: "j < length xs" "xs ! j = y"
      unfolding in_set_conv_nth by blast
    from argsort_surj [OF j(1)] obtain q where q: "q < length xs" "argsort xs ! q = j"
      by blast
    from argsort_mono [of q "length xs - 1" xs] q j n show ?thesis by simp
  qed
  moreover have "xs ! (argsort xs ! (length xs - 1)) \<in> set xs"
    using n argsort_nth_less [of "length xs - 1" xs] by simp
  ultimately have "Max (set xs) = xs ! (argsort xs ! (length xs - 1))"
    by (intro Max_eqI) simp_all
  then show ?thesis by simp
qed

lemma position_nth:
  "k \<in> set xs \<Longrightarrow> position xs k < length xs \<and> xs ! position xs k = k"
  unfolding position_def by (induction xs) auto

lemma position_eq:
  assumes "distinct xs" "p < length xs"
  shows "position xs (xs ! p) = p"
proof -
  have "xs ! p \<in> set xs" using assms(2) by simp
  from position_nth [OF this] have a: "position xs (xs ! p) < length xs"
    and b: "xs ! position xs (xs ! p) = xs ! p" by simp_all
  show ?thesis using nth_eq_iff_index_eq [OF assms(1) a assms(2)] b by simp
qed


lemma fold_update_length [simp]:
  "length (fold (\<lambda>i d. d[si i := F i (d ! si i)]) js d) = length d"
  by (induction js arbitrary: d) simp_all

lemma fold_update_other:
  "k \<notin> si ` set js \<Longrightarrow> fold (\<lambda>i d. d[si i := F i (d ! si i)]) js d ! k = d ! k"
  by (induction js arbitrary: d) simp_all

lemma fold_update_hit:
  assumes "distinct js" "inj_on si (set js)" "i \<in> set js" "si i < length d"
  shows "fold (\<lambda>i d. d[si i := F i (d ! si i)]) js d ! si i = F i (d ! si i)"
  using assms
proof (induction js arbitrary: d)
  case Nil
  then show ?case by simp
next
  case (Cons a js)
  let ?d1 = "d[si a := F a (d ! si a)]"
  show ?case
  proof (cases "i = a")
    case True
    have "si a \<notin> si ` set js"
      using Cons.prems(1,2) by (auto simp: inj_on_def)
    then have "fold (\<lambda>i d. d[si i := F i (d ! si i)]) js ?d1 ! si a = ?d1 ! si a"
      by (rule fold_update_other)
    then show ?thesis using True Cons.prems(4) by simp
  next
    case False
    then have i: "i \<in> set js" using Cons.prems(3) by simp
    have ne: "si i \<noteq> si a"
      using False Cons.prems(2,3) by (auto simp: inj_on_def)
    have "fold (\<lambda>i d. d[si i := F i (d ! si i)]) js ?d1 ! si i = F i (?d1 ! si i)"
      using Cons.prems by (intro Cons.IH) (simp_all add: i)
    then show ?thesis using ne by simp
  qed
qed

lemma column_nth: "j < length fs \<Longrightarrow> column fs m ! j = fs ! j ! m"
  by (simp add: column_def)

lemma fold_length_preserved:
  "(\<And>i d. length (f i d) = length d) \<Longrightarrow> length (fold f js d) = length d"
  by (induction js arbitrary: d) simp_all

lemma crowding_objective_length [simp]:
  "length (crowding_objective fs m d) = length d"
  by (simp add: crowding_objective_def Let_def fold_length_preserved)

lemma crowding_objective_nth:
  assumes n: "3 \<le> length fs" and len: "length d = length fs" and k: "k < length fs"
  shows "crowding_objective fs m d ! k =
     (if objective_range fs m = 0 then d ! k
      else if is_boundary fs m k then Inf
      else add_dist (d ! k) (neighbour_gap fs m k))"
proof -
  let ?n = "length fs"
  let ?col = "column fs m"
  let ?si = "argsort ?col"
  let ?a = "?si ! 0" and ?b = "?si ! (?n - 1)"
  have lc: "length ?col = ?n" by (simp add: column_def)
  have ne: "?col \<noteq> []" using n lc by auto
  have sil: "length ?si = ?n" by (simp add: lc)
  have si_lt: "?si ! p < ?n" if "p < ?n" for p
    using argsort_nth_less [of p ?col] that lc by simp
  have si_inj: "?si ! p = ?si ! q \<longleftrightarrow> p = q" if "p < ?n" "q < ?n" for p q
    using that sil by (simp add: nth_eq_iff_index_eq)
  have n0: "0 < ?n" and n1: "?n - 1 < ?n" using n by linarith+
  have fne: "fs \<noteq> []" using n by auto
  have "?col ! ?a = Min (set ?col)" by (rule argsort_first_Min [OF ne])
  then have fmin: "fs ! ?a ! m = Min (set ?col)"
    unfolding column_nth [OF si_lt [OF n0], of m] .
  have "?col ! ?b = Max (set ?col)" using argsort_last_Max [OF ne] unfolding lc .
  then have fmax: "fs ! ?b ! m = Max (set ?col)"
    unfolding column_nth [OF si_lt [OF n1], of m] .
  have rng: "fs ! ?b ! m - fs ! ?a ! m = objective_range fs m"
    by (simp only: fmin fmax objective_range_def)
  have bnd: "is_boundary fs m k \<longleftrightarrow> k = ?a \<or> k = ?b"
  proof -
    have sine: "?si \<noteq> []" using ne length_argsort [of ?col] by (metis length_0_conv)
    show ?thesis
      by (simp add: is_boundary_def Let_def hd_conv_nth [OF sine] last_conv_nth [OF sine] lc)
  qed
  show ?thesis
  proof (cases "objective_range fs m = 0")
    case True
    then have "fs ! ?b ! m = fs ! ?a ! m" using rng by simp
    then show ?thesis using True by (simp add: crowding_objective_def Let_def column_def)
  next
    case False
    then have neq: "fs ! ?b ! m \<noteq> fs ! ?a ! m" using rng by auto
    let ?g = "\<lambda>i. (fs ! (?si ! (i + 1)) ! m - fs ! (?si ! (i - 1)) ! m) / (fs ! ?b ! m - fs ! ?a ! m)"
    let ?d0 = "d[?a := Inf, ?b := Inf]"
    let ?res = "fold (\<lambda>i d. d[?si ! i := add_dist (d ! (?si ! i)) (?g i)]) [1..<?n - 1] ?d0"
    have co: "crowding_objective fs m d = ?res"
      using neq by (simp add: crowding_objective_def Let_def column_def)
    have ab: "?a \<noteq> ?b" using si_inj [OF n0 n1] n by simp
    have kin: "k \<in> set ?si" using k lc by simp
    define p where "p = position ?si k"
    have p: "p < ?n" "?si ! p = k"
      using position_nth [OF kin] sil by (simp_all add: p_def)
    have inj: "inj_on (\<lambda>i. ?si ! i) (set [1..<?n - 1])"
      using si_inj by (auto simp: inj_on_def)
    consider (first) "p = 0" | (last) "p = ?n - 1" | (mid) "0 < p" "p < ?n - 1"
      using p(1) by linarith
    then show ?thesis
    proof cases
      case first
      then have ka: "k = ?a" using p(2) by simp
      have "?a \<notin> (\<lambda>i. ?si ! i) ` set [1..<?n - 1]"
      proof
        assume "?a \<in> (\<lambda>i. ?si ! i) ` set [1..<?n - 1]"
        then obtain i where i: "1 \<le> i" "i < ?n - 1" "?si ! i = ?a" by auto
        then have "i < ?n" by simp
        from si_inj [OF this n0] i show False by simp
      qed
      then have "?res ! ?a = ?d0 ! ?a" by (rule fold_update_other)
      also have "\<dots> = Inf" using ab si_lt [OF n0] len by simp
      finally show ?thesis using False ka bnd co by simp
    next
      case last
      then have kb: "k = ?b" using p(2) by simp
      have "?b \<notin> (\<lambda>i. ?si ! i) ` set [1..<?n - 1]"
      proof
        assume "?b \<in> (\<lambda>i. ?si ! i) ` set [1..<?n - 1]"
        then obtain i where i: "1 \<le> i" "i < ?n - 1" "?si ! i = ?b" by auto
        then have "i < ?n" by simp
        from si_inj [OF this n1] i show False by simp
      qed
      then have "?res ! ?b = ?d0 ! ?b" by (rule fold_update_other)
      also have "\<dots> = Inf" using si_lt [OF n1] len by simp
      finally show ?thesis using False kb bnd co by simp
    next
      case mid
      have kna: "k \<noteq> ?a" using si_inj [OF p(1) n0] mid p(2) by auto
      have knb: "k \<noteq> ?b" using si_inj [OF p(1) n1] mid p(2) by auto
      have pin: "p \<in> set [1..<?n - 1]" using mid by simp
      have lt: "?si ! p < length ?d0" using p len k by simp
      have "?res ! (?si ! p) = add_dist (?d0 ! (?si ! p)) (?g p)"
        using fold_update_hit [of "[1..<?n - 1]" "\<lambda>i. ?si ! i" p ?d0 "\<lambda>i x. add_dist x (?g i)"]
          inj pin lt by simp
      moreover have "?d0 ! k = d ! k" using kna knb by simp
      moreover have "?g p = neighbour_gap fs m k"
      proof -
        have sp: "p + 1 < ?n" "p - 1 < ?n" using mid by linarith+
        show ?thesis
          by (simp only: neighbour_gap_def Let_def p_def [symmetric] rng
              column_nth [OF si_lt [OF sp(1)]] column_nth [OF si_lt [OF sp(2)]])
      qed
      ultimately show ?thesis using False kna knb bnd co p(2) by simp
    qed
  qed
qed


lemma crowding_fold_length [simp]:
  "length (fold (crowding_objective fs) ms d) = length d"
  by (simp add: fold_length_preserved)

lemma crowding_spec_Suc:
  "crowding_spec fs (Suc M) k =
     (if objective_range fs M = 0 then crowding_spec fs M k
      else if is_boundary fs M k then Inf
      else add_dist (crowding_spec fs M k) (neighbour_gap fs M k))"
  by (simp add: crowding_spec_def)

lemma crowding_fold_spec:
  assumes "3 \<le> length fs" "k < length fs"
  shows "fold (crowding_objective fs) [0..<M] (replicate (length fs) (Fin 0)) ! k =
     crowding_spec fs M k"
proof (induction M)
  case 0
  show ?case using assms(2) by (simp add: crowding_spec_def)
next
  case (Suc M)
  let ?d = "fold (crowding_objective fs) [0..<M] (replicate (length fs) (Fin 0))"
  have "length ?d = length fs" by simp
  from crowding_objective_nth [OF assms(1) this assms(2), of M] Suc
  show ?case by (simp add: crowding_spec_Suc)
qed

lemma np_put_length [simp]: "length (np_put idx vals a) = length a"
  unfolding np_put_def by (rule fold_length_preserved) (simp split: prod.split)

lemma np_put_Cons:
  "np_put (i # idx) (v # vals) a = np_put idx vals (a[i := v])"
  by (simp add: np_put_def)

lemma np_put_other: "j \<notin> set idx \<Longrightarrow> np_put idx vals a ! j = a ! j"
proof (induction idx arbitrary: vals a)
  case Nil
  then show ?case by (simp add: np_put_def)
next
  case (Cons i idx)
  show ?case
  proof (cases vals)
    case Nil
    then show ?thesis by (simp add: np_put_def)
  next
    case (Cons v vs)
    with Cons.prems Cons.IH [of vs "a[i := v]"] show ?thesis
      by (simp add: np_put_Cons)
  qed
qed

lemma np_put_nth:
  assumes "distinct idx" "length vals = length idx" "k < length idx" "idx ! k < length a"
  shows "np_put idx vals a ! (idx ! k) = vals ! k"
  using assms
proof (induction idx arbitrary: vals a k)
  case Nil
  then show ?case by simp
next
  case (Cons i idx)
  from Cons.prems(2) obtain v vs where vals: "vals = v # vs" "length vs = length idx"
    by (cases vals) auto
  show ?case
  proof (cases k)
    case 0
    have "i \<notin> set idx" using Cons.prems(1) by simp
    then have "np_put idx vs (a[i := v]) ! i = (a[i := v]) ! i" by (rule np_put_other)
    then show ?thesis using 0 vals Cons.prems(4) by (simp add: np_put_Cons)
  next
    case (Suc k')
    have "np_put idx vs (a[i := v]) ! (idx ! k') = vs ! k'"
      using Cons.prems Suc vals by (intro Cons.IH) simp_all
    then show ?thesis using Suc vals by (simp add: np_put_Cons)
  qed
qed

lemma front_crowding_length [simp]:
  "length (front_crowding S n_obj f cd) = length cd"
  by (simp add: front_crowding_def Let_def)

lemma front_crowding_other:
  "j \<notin> set f \<Longrightarrow> j < length cd \<Longrightarrow> front_crowding S n_obj f cd ! j = cd ! j"
  by (simp add: front_crowding_def Let_def np_put_other nth_np_fill)

lemma front_crowding_nth:
  assumes "distinct f" "\<forall>i\<in>set f. i < length cd" "k < length f"
  shows "front_crowding S n_obj f cd ! (f ! k) =
     (if length f \<le> 2 then Inf else crowding_spec (np_take S f) n_obj k)"
proof (cases "length f \<le> 2")
  case True
  have "f ! k < length cd" "f ! k \<in> set f" using assms(2,3) by simp_all
  then show ?thesis using True by (simp add: front_crowding_def nth_np_fill)
next
  case False
  let ?fs = "np_take S f"
  let ?d = "fold (crowding_objective ?fs) [0..<n_obj] (replicate (length f) (Fin 0))"
  have lfs: "length ?fs = length f" by (simp add: np_take_def)
  have three: "3 \<le> length ?fs" using False lfs by simp
  have kk: "k < length ?fs" using assms(3) lfs by simp
  have "np_put f ?d cd ! (f ! k) = ?d ! k"
    using assms by (intro np_put_nth) simp_all
  also have "\<dots> = crowding_spec ?fs n_obj k"
    using crowding_fold_spec [OF three kk, of n_obj] by (simp add: lfs)
  finally show ?thesis using False by (simp add: front_crowding_def Let_def)
qed

lemma fold_front_crowding_length [simp]:
  "length (fold (front_crowding S n_obj) fronts cd) = length cd"
  by (simp add: fold_length_preserved)

lemma crowding_fold_fronts:
  assumes "\<forall>r<length fronts. distinct (fronts ! r) \<and> (\<forall>i\<in>set (fronts ! r). i < length cd)"
    and "\<forall>r<length fronts. \<forall>r'<length fronts. r \<noteq> r' \<longrightarrow>
           set (fronts ! r) \<inter> set (fronts ! r') = {}"
    and "r < length fronts" "k < length (fronts ! r)"
  shows "fold (front_crowding S n_obj) fronts cd ! (fronts ! r ! k) =
     (if length (fronts ! r) \<le> 2 then Inf else crowding_spec (np_take S (fronts ! r)) n_obj k)"
  using assms
proof (induction fronts rule: rev_induct)
  case Nil
  then show ?case by simp
next
  case (snoc f fronts)
  let ?cd = "fold (front_crowding S n_obj) fronts cd"
  have good_f: "distinct f" "\<forall>i\<in>set f. i < length ?cd"
    using snoc.prems(1) [rule_format, of "length fronts"] by simp_all
  show ?case
  proof (cases "r = length fronts")
    case True
    then have "(fronts @ [f]) ! r = f" by simp
    with front_crowding_nth [OF good_f, of k S n_obj] snoc.prems(4) show ?thesis
      by simp
  next
    case False
    then have r: "r < length fronts" using snoc.prems(3) by simp
    then have fr: "(fronts @ [f]) ! r = fronts ! r" by (simp add: nth_append)
    have k: "k < length (fronts ! r)" using snoc.prems(4) fr by simp
    have p1: "\<forall>r<length fronts. distinct (fronts ! r) \<and> (\<forall>i\<in>set (fronts ! r). i < length cd)"
    proof (intro allI impI)
      fix q assume "q < length fronts"
      then show "distinct (fronts ! q) \<and> (\<forall>i\<in>set (fronts ! q). i < length cd)"
        using snoc.prems(1) [rule_format, of q] by (simp add: nth_append)
    qed
    have p2: "\<forall>r<length fronts. \<forall>r'<length fronts. r \<noteq> r' \<longrightarrow>
           set (fronts ! r) \<inter> set (fronts ! r') = {}"
    proof (intro allI impI)
      fix q q' assume "q < length fronts" "q' < length fronts" "q \<noteq> q'"
      then show "set (fronts ! q) \<inter> set (fronts ! q') = {}"
        using snoc.prems(2) [rule_format, of q q'] by (simp add: nth_append)
    qed
    have disj: "set (fronts ! r) \<inter> set f = {}"
      using snoc.prems(2) [rule_format, of r "length fronts"] r by (simp add: nth_append)
    have mem: "fronts ! r ! k \<in> set (fronts ! r)" using k by simp
    then have notin: "fronts ! r ! k \<notin> set f" using disj by blast
    have lt: "fronts ! r ! k < length ?cd" using p1 r mem by simp
    have "front_crowding S n_obj f ?cd ! (fronts ! r ! k) = ?cd ! (fronts ! r ! k)"
      using notin lt by (rule front_crowding_other)
    with snoc.IH [OF p1 p2 r k] fr show ?thesis by simp
  qed
qed


text \<open>
  Claim C5.  The crowding distances returned by the sort are computed front by front.
  Every individual belongs to the front of its rank.  In a front with at most 2 members
  every member has distance infinity.  In a larger front the distance of a member is
  \<open>crowding_spec\<close>: infinity when the member is first or last in the order of some
  objective with nonzero range over the front, and otherwise the sum, over the objectives
  with nonzero range, of the gap between its two neighbours in that order divided by the
  range; objectives with zero range contribute nothing.  For the front of 4 points with
  the values 0, 1, 2, 10 on a single objective the distances are infinity, 0.2, 0.9 and
  infinity.
\<close>

theorem crowding_distance_per_front:
  assumes "is_matrix n_obj scores"
  shows "(\<exists>ranks crowding fronts.
       non_dominated_sort n_obj scores = Some (ranks, crowding) \<and>
       length crowding = length scores \<and>
       (\<forall>j<length scores. \<exists>r<length fronts. j \<in> set (fronts ! r)) \<and>
       (\<forall>r<length fronts.
          distinct (fronts ! r) \<and>
          set (fronts ! r) = {j. j < length scores \<and> ranks ! j = Suc r} \<and>
          (\<forall>k<length (fronts ! r).
             crowding ! (fronts ! r ! k) =
               (if length (fronts ! r) \<le> 2 then Inf
                else crowding_spec (np_take scores (fronts ! r)) n_obj k)))) \<and>
     front_crowding [[0], [1], [2], [10]] 1 [0, 1, 2, 3] (replicate 4 (Fin 0)) =
       [Inf, Fin (1 / 5), Fin (9 / 10), Inf]"
proof -
  let ?n = "length scores"
  from non_dominated_sort_fronts [OF assms] obtain ranks fronts where
    so: "sorted_out scores ranks fronts"
    and res: "non_dominated_sort n_obj scores =
       Some (ranks, fold (front_crowding scores n_obj) fronts (replicate ?n (Fin 0)))"
    by blast
  let ?cd = "fold (front_crowding scores n_obj) fronts (replicate ?n (Fin 0))"
  from so have rng: "\<And>j. j < ?n \<Longrightarrow> 0 < ranks ! j \<and> ranks ! j \<le> length fronts"
    and fr: "\<And>r. r < length fronts \<Longrightarrow> distinct (fronts ! r) \<and>
         set (fronts ! r) = {j. j < ?n \<and> ranks ! j = Suc r}"
    by (simp_all add: sorted_out_def)
  have len: "length ?cd = ?n" by simp
  have cover: "\<exists>r<length fronts. j \<in> set (fronts ! r)" if j: "j < ?n" for j
  proof -
    from rng [OF j] obtain r where r: "ranks ! j = Suc r" "r < length fronts"
      by (cases "ranks ! j") auto
    with fr [OF r(2)] j show ?thesis by auto
  qed
  have p1: "\<forall>r<length fronts. distinct (fronts ! r) \<and>
      (\<forall>i\<in>set (fronts ! r). i < length (replicate ?n (Fin 0)))"
    using fr by simp
  have p2: "\<forall>r<length fronts. \<forall>r'<length fronts. r \<noteq> r' \<longrightarrow>
           set (fronts ! r) \<inter> set (fronts ! r') = {}"
  proof (intro allI impI)
    fix r r' assume r: "r < length fronts" and r': "r' < length fronts" and ne: "r \<noteq> r'"
    have e1: "set (fronts ! r) = {j. j < ?n \<and> ranks ! j = Suc r}"
      and e2: "set (fronts ! r') = {j. j < ?n \<and> ranks ! j = Suc r'}"
      using fr [OF r] fr [OF r'] by simp_all
    show "set (fronts ! r) \<inter> set (fronts ! r') = {}"
      unfolding e1 e2 using ne by auto
  qed
  have per: "\<forall>r<length fronts. distinct (fronts ! r) \<and>
          set (fronts ! r) = {j. j < ?n \<and> ranks ! j = Suc r} \<and>
          (\<forall>k<length (fronts ! r).
             ?cd ! (fronts ! r ! k) =
               (if length (fronts ! r) \<le> 2 then Inf
                else crowding_spec (np_take scores (fronts ! r)) n_obj k))"
  proof (intro allI impI conjI)
    fix r assume r: "r < length fronts"
    show "distinct (fronts ! r)" using fr [OF r] by simp
    show "set (fronts ! r) = {j. j < ?n \<and> ranks ! j = Suc r}" using fr [OF r] by simp
    fix k assume k: "k < length (fronts ! r)"
    show "?cd ! (fronts ! r ! k) =
               (if length (fronts ! r) \<le> 2 then Inf
                else crowding_spec (np_take scores (fronts ! r)) n_obj k)"
      by (rule crowding_fold_fronts [OF p1 p2 r k])
  qed
  have cover': "\<forall>j<?n. \<exists>r<length fronts. j \<in> set (fronts ! r)"
    using cover by blast
  have scenario: "front_crowding [[0], [1], [2], [10]] 1 [0, 1, 2, 3] (replicate 4 (Fin 0)) =
       [Inf, Fin (1 / 5), Fin (9 / 10), Inf]"
    by code_simp
  have "\<exists>ranks crowding fronts.
       non_dominated_sort n_obj scores = Some (ranks, crowding) \<and>
       length crowding = ?n \<and>
       (\<forall>j<?n. \<exists>r<length fronts. j \<in> set (fronts ! r)) \<and>
       (\<forall>r<length fronts.
          distinct (fronts ! r) \<and>
          set (fronts ! r) = {j. j < ?n \<and> ranks ! j = Suc r} \<and>
          (\<forall>k<length (fronts ! r).
             crowding ! (fronts ! r ! k) =
               (if length (fronts ! r) \<le> 2 then Inf
                else crowding_spec (np_take scores (fronts ! r)) n_obj k)))"
    by (rule exI [of _ ranks], rule exI [of _ ?cd], rule exI [of _ fronts])
      (intro conjI res len cover' per)
  with scenario show ?thesis by (intro conjI)
qed

theorem crowding_distance_per_front_witness:
  "is_matrix 2 [[0, 10], [1, 2], [2, 1], [10, 0], [5, 5]] \<and>
   non_dominated_sort 2 [[0, 10], [1, 2], [2, 1], [10, 0], [5, 5]] =
     Some ([1, 1, 1, 1, 2], [Inf, Fin (11 / 10), Fin (11 / 10), Inf, Inf]) \<and>
   crowding_spec (np_take [[0, 10], [1, 2], [2, 1], [10, 0], [5, 5]] [0, 1, 2, 3]) 2 1 = Fin (11 / 10) \<and>
   (\<exists>ranks crowding.
      non_dominated_sort 2 [[0, 10], [1, 2], [2, 1], [10, 0], [5, 5]] = Some (ranks, crowding) \<and>
      length crowding = 5)"
proof -
  have m: "is_matrix 2 [[0, 10], [1, 2], [2, 1], [10, 0], [5, 5]]"
    by (simp add: is_matrix_def)
  have v: "non_dominated_sort 2 [[0, 10], [1, 2], [2, 1], [10, 0], [5, 5]] =
     Some ([1, 1, 1, 1, 2], [Inf, Fin (11 / 10), Fin (11 / 10), Inf, Inf])"
    by code_simp
  have s: "crowding_spec (np_take [[0, 10], [1, 2], [2, 1], [10, 0], [5, 5]] [0, 1, 2, 3]) 2 1
      = Fin (11 / 10)"
    by code_simp
  from crowding_distance_per_front [OF m] have
    "\<exists>ranks crowding.
      non_dominated_sort 2 [[0, 10], [1, 2], [2, 1], [10, 0], [5, 5]] = Some (ranks, crowding) \<and>
      length crowding = 5"
    by auto
  with m v s show ?thesis by blast
qed

section \<open>The problem, the objective function and the random source\<close>

text \<open>
  \<^verbatim>\<open>problem\<close> is the dictionary passed to \<^verbatim>\<open>moho\<close>; its bounds are the scalars of \<^verbatim>\<open>main\<close>.
  Sizes are Python integers.  The errors are the two exceptions the optimizer can raise:
  NumPy refuses a negative array dimension and an empty \<^verbatim>\<open>np.random.choice\<close> with
  \<^verbatim>\<open>ValueError\<close>, and a division of Python floats by zero raises \<^verbatim>\<open>ZeroDivisionError\<close>.
\<close>

datatype error = ValueError | ZeroDivisionError

record problem =
  dimension :: int
  n_sensors :: int
  lb :: real
  ub :: real

fun fold_err :: "('a \<Rightarrow> 's \<Rightarrow> error + 's) \<Rightarrow> 'a list \<Rightarrow> 's \<Rightarrow> error + 's" where
  "fold_err f [] s = Inr s"
| "fold_err f (x # xs) s = (case f x s of Inl e \<Rightarrow> Inl e | Inr s' \<Rightarrow> fold_err f xs s')"

text \<open>Elementwise arithmetic on vectors, and the scalar forms NumPy broadcasts.\<close>

definition vadd :: "real list \<Rightarrow> real list \<Rightarrow> real list" where
  "vadd a b = map2 (+) a b"

definition vsub :: "real list \<Rightarrow> real list \<Rightarrow> real list" where
  "vsub a b = map2 (-) a b"

definition vmul :: "real list \<Rightarrow> real list \<Rightarrow> real list" where
  "vmul a b = map2 (*) a b"

definition smul :: "real \<Rightarrow> real list \<Rightarrow> real list" where
  "smul c a = map (\<lambda>x. c * x) a"

definition np_clip :: "real list \<Rightarrow> real \<Rightarrow> real \<Rightarrow> real list" where
  "np_clip x a_min a_max = map (\<lambda>v. min (max v a_min) a_max) x"

definition np_mean :: "real list \<Rightarrow> real" where
  "np_mean xs = sum_list xs / real (length xs)"

definition np_std :: "real list \<Rightarrow> real" where
  "np_std xs = sqrt (np_mean (map (\<lambda>x. (x - np_mean xs)\<^sup>2) xs))"

definition np_mean_rows :: "nat \<Rightarrow> real list list \<Rightarrow> real list" where
  "np_mean_rows d rows = map (\<lambda>c. np_mean (map (\<lambda>row. row ! c) rows)) [0..<d]"

definition py_prefix :: "int \<Rightarrow> 'a list \<Rightarrow> 'a list" where
  "py_prefix n xs = (if 0 \<le> n then take (nat n) xs else take (length xs - nat (- n)) xs)"

text \<open>
  \<^verbatim>\<open>evaluate_objectives(pos, problem)\<close>: the placeholder objective of the repository.  It
  always returns three values.
\<close>

definition evaluate_objectives :: "real list \<Rightarrow> problem \<Rightarrow> real list" where
  "evaluate_objectives pos problem =
     (let sorted_indices = rev (argsort pos);
          sensor_indices = map real (py_prefix (n_sensors problem) sorted_indices);
          f1 = - np_std sensor_indices;
          f2 = \<bar>np_mean sensor_indices - real_of_int (dimension problem) / 2\<bar>;
          f3 = sum_list sensor_indices
      in [f1, f2, f3])"

text \<open>
  The random source is the global NumPy generator.  Its results are an input of the model:
  one record per call site group, holding what each call returned.  Uniform vectors are
  given by component, so that they have the length the call asked for.
  \<open>levy_step\<close> is the value of \<^verbatim>\<open>levy(1, dimension, 1.5).flatten()\<close>, a ratio of normal samples.
\<close>

record explore_draws =
  leader_choice :: nat
  I1 :: int
  I2 :: int
  permutation :: "nat list"
  group_size :: nat
  rand_A :: "nat \<Rightarrow> real"
  rand_B :: "nat \<Rightarrow> real"
  rand_P1 :: real
  rand_branch :: real
  rand_fresh :: "nat \<Rightarrow> real"

record defense_draws =
  rand_predator :: "nat \<Rightarrow> real"
  levy_step :: "nat \<Rightarrow> real"
  rand_b :: real
  rand_c :: real
  rand_d :: real
  rand_l :: real

record escape_draws =
  rand_D :: "nat \<Rightarrow> real"
  rand_P4 :: real

record draws =
  init_rand :: "nat \<Rightarrow> nat \<Rightarrow> real"
  explore :: "int \<Rightarrow> nat \<Rightarrow> explore_draws"
  defend :: "int \<Rightarrow> nat \<Rightarrow> defense_draws"
  escape :: "int \<Rightarrow> nat \<Rightarrow> escape_draws"

section \<open>Populations and the array store\<close>

text \<open>
  A population is a Python dictionary whose entries \<^verbatim>\<open>'pos'\<close> and \<^verbatim>\<open>'scores'\<close> refer to
  two-dimensional NumPy arrays that the phases update in place.  Arrays live in a store,
  addressed by references; the dictionary holds the references.  The ranks and crowding
  distances are never updated in place and are kept as values.

  \<^verbatim>\<open>dict.copy()\<close> builds a new dictionary with the same entries: the copy refers to the
  same arrays as the original.
\<close>

type_synonym matrix = "real list list"

record heap =
  store :: "nat \<Rightarrow> matrix"
  next_ref :: nat

record population =
  pos :: nat
  scores :: nat
  ranks :: "nat list"
  crowding_distances :: "dist list"

definition empty_heap :: heap where
  "empty_heap = \<lparr>store = (\<lambda>_. []), next_ref = 0\<rparr>"

definition new_array :: "matrix \<Rightarrow> heap \<Rightarrow> nat \<times> heap" where
  "new_array m h = (next_ref h, \<lparr>store = (store h)(next_ref h := m), next_ref = Suc (next_ref h)\<rparr>)"

definition write_row :: "nat \<Rightarrow> nat \<Rightarrow> real list \<Rightarrow> heap \<Rightarrow> heap" where
  "write_row a i v h = h\<lparr>store := (store h)(a := (store h a)[i := v])\<rparr>"

definition dict_copy :: "population \<Rightarrow> population" where
  "dict_copy P = P"

section \<open>The three movement phases of \<^verbatim>\<open>moho\<close>\<close>

text \<open>
  The decision repeated in every phase: clip the candidate, evaluate it, and store it in
  slot \<open>i\<close> of the offspring when \<^verbatim>\<open>determine_dominance(score_new, Q['scores'][i, :]) >= 0\<close>.
  The objective function is a parameter; the source calls \<^verbatim>\<open>evaluate_objectives\<close>.
\<close>

definition multi_objective_decision ::
  "(real list \<Rightarrow> problem \<Rightarrow> real list) \<Rightarrow> problem \<Rightarrow> population \<Rightarrow> nat \<Rightarrow> real list
     \<Rightarrow> heap \<Rightarrow> heap" where
  "multi_objective_decision ev problem Q i X h =
     (let X_new = np_clip X (lb problem) (ub problem);
          score_new = ev X_new problem
      in if determine_dominance score_new (store h (scores Q) ! i) \<ge> 0
         then write_row (scores Q) i score_new (write_row (pos Q) i X_new h)
         else h)"

text \<open>
  The candidate positions of the three phases, named as in the source.  All of them are
  computed from the arrays as they are when the step of individual \<open>i\<close> begins.
\<close>

definition X_P1 ::
  "problem \<Rightarrow> population \<Rightarrow> nat list \<Rightarrow> explore_draws \<Rightarrow> nat \<Rightarrow> heap \<Rightarrow> real list" where
  "X_P1 problem P current_front_one_indices e i h =
     (let leader_idx = current_front_one_indices ! leader_choice e;
          dominant_hippopotamus = store h (pos P) ! leader_idx;
          P_i = store h (pos P) ! i
      in vadd P_i (smul (rand_P1 e)
           (vsub dominant_hippopotamus (smul (real_of_int (I1 e)) P_i))))"

definition X_P2 ::
  "int \<Rightarrow> problem \<Rightarrow> population \<Rightarrow> nat list \<Rightarrow> int \<Rightarrow> explore_draws \<Rightarrow> nat \<Rightarrow> heap
     \<Rightarrow> real list" where
  "X_P2 max_gen problem P current_front_one_indices t e i h =
     (let d = nat (dimension problem);
          leader_idx = current_front_one_indices ! leader_choice e;
          dominant_hippopotamus = store h (pos P) ! leader_idx;
          mean_group =
            np_mean_rows d (np_take (store h (pos P)) (take (group_size e) (permutation e)));
          A = map (\<lambda>j. 2 * rand_A e j - 1) [0..<d];
          B = map (\<lambda>j. 2 * rand_B e j - 1) [0..<d];
          P_i = store h (pos P) ! i;
          T = exp (- real_of_int t / real_of_int max_gen)
      in if T > 0.6 then
           vadd P_i (vmul A (vsub dominant_hippopotamus (smul (real_of_int (I2 e)) mean_group)))
         else if rand_branch e > 0.5 then
           vadd P_i (vmul B (vsub mean_group dominant_hippopotamus))
         else map (\<lambda>j. lb problem + rand_fresh e j * (ub problem - lb problem)) [0..<d])"

definition X_P3 ::
  "problem \<Rightarrow> population \<Rightarrow> defense_draws \<Rightarrow> nat \<Rightarrow> heap \<Rightarrow> error + real list" where
  "X_P3 problem P e i h =
     (let d = nat (dimension problem);
          predator = map (\<lambda>j. lb problem + rand_predator e j * (ub problem - lb problem)) [0..<d];
          distance_to_predator = map abs (vsub predator (store h (pos P) ! i));
          RL = map (\<lambda>j. 0.05 * levy_step e j) [0..<d];
          b = 2 + 2 * rand_b e;
          c = 1 + 0.5 * rand_c e;
          d' = 2 + rand_d e;
          l = - 2 * pi + 4 * pi * rand_l e
      in if c - d' * cos l = 0 then Inl ZeroDivisionError
         else Inr (vadd (vmul RL predator)
                    (smul (b / (c - d' * cos l))
                       (map (\<lambda>x. 1 / (x + 1 / 1000000)) distance_to_predator))))"

definition X_P4 ::
  "problem \<Rightarrow> population \<Rightarrow> int \<Rightarrow> escape_draws \<Rightarrow> nat \<Rightarrow> heap \<Rightarrow> real list" where
  "X_P4 problem Q t e i h =
     (let d = nat (dimension problem);
          LO_LOCAL = lb problem / real_of_int t;
          HI_LOCAL = ub problem / real_of_int t;
          D = map (\<lambda>j. 2 * rand_D e j - 1) [0..<d]
      in vadd (store h (pos Q) ! i)
           (smul (rand_P4 e) (map (\<lambda>x. LO_LOCAL + x * (HI_LOCAL - LO_LOCAL)) D)))"

text \<open>
  The step of one individual in each phase.  Exploration first picks a leader, which
  fails on an empty index set, and then offers \<open>X_P1\<close> and \<open>X_P2\<close> in this order.
\<close>

definition exploration_individual ::
  "(real list \<Rightarrow> problem \<Rightarrow> real list) \<Rightarrow> int \<Rightarrow> problem \<Rightarrow> population \<Rightarrow> population
     \<Rightarrow> nat list \<Rightarrow> int \<Rightarrow> (nat \<Rightarrow> explore_draws) \<Rightarrow> nat \<Rightarrow> heap \<Rightarrow> error + heap" where
  "exploration_individual ev max_gen problem P Q current_front_one_indices t dr i h =
     (if current_front_one_indices = [] then Inl ValueError
      else Inr (fold (multi_objective_decision ev problem Q i)
                  [X_P1 problem P current_front_one_indices (dr i) i h,
                   X_P2 max_gen problem P current_front_one_indices t (dr i) i h] h))"

definition defense_individual ::
  "(real list \<Rightarrow> problem \<Rightarrow> real list) \<Rightarrow> problem \<Rightarrow> population \<Rightarrow> population
     \<Rightarrow> (nat \<Rightarrow> defense_draws) \<Rightarrow> nat \<Rightarrow> heap \<Rightarrow> error + heap" where
  "defense_individual ev problem P Q dr i h =
     (case X_P3 problem P (dr i) i h of
        Inl e \<Rightarrow> Inl e
      | Inr X \<Rightarrow> Inr (multi_objective_decision ev problem Q i X h))"

definition escape_individual ::
  "(real list \<Rightarrow> problem \<Rightarrow> real list) \<Rightarrow> problem \<Rightarrow> population \<Rightarrow> int
     \<Rightarrow> (nat \<Rightarrow> escape_draws) \<Rightarrow> nat \<Rightarrow> heap \<Rightarrow> heap" where
  "escape_individual ev problem Q t dr i h =
     multi_objective_decision ev problem Q i (X_P4 problem Q t (dr i) i h) h"

definition exploration_phase ::
  "(real list \<Rightarrow> problem \<Rightarrow> real list) \<Rightarrow> nat \<Rightarrow> int \<Rightarrow> problem \<Rightarrow> population \<Rightarrow> population
     \<Rightarrow> nat list \<Rightarrow> int \<Rightarrow> (nat \<Rightarrow> explore_draws) \<Rightarrow> heap \<Rightarrow> error + heap" where
  "exploration_phase ev pop_size max_gen problem P Q current_front_one_indices t dr h =
     fold_err (exploration_individual ev max_gen problem P Q current_front_one_indices t dr)
       [0..<pop_size div 2] h"

definition defense_phase ::
  "(real list \<Rightarrow> problem \<Rightarrow> real list) \<Rightarrow> nat \<Rightarrow> problem \<Rightarrow> population \<Rightarrow> population
     \<Rightarrow> (nat \<Rightarrow> defense_draws) \<Rightarrow> heap \<Rightarrow> error + heap" where
  "defense_phase ev pop_size problem P Q dr h =
     fold_err (defense_individual ev problem P Q dr) [pop_size div 2..<pop_size] h"

definition escape_phase ::
  "(real list \<Rightarrow> problem \<Rightarrow> real list) \<Rightarrow> nat \<Rightarrow> problem \<Rightarrow> population \<Rightarrow> int
     \<Rightarrow> (nat \<Rightarrow> escape_draws) \<Rightarrow> heap \<Rightarrow> heap" where
  "escape_phase ev pop_size problem Q t dr h =
     fold (escape_individual ev problem Q t dr) [0..<pop_size] h"

section \<open>Environmental selection and the generation loop\<close>

text \<open>
  \<^verbatim>\<open>a[start:stop, :] = rows\<close> replaces the rows from \<open>start\<close> on by the given ones.  The
  selection loop fills the two fresh arrays front by front; it ends when \<open>count\<close> reaches
  \<open>pop_size\<close>, or by \<^verbatim>\<open>break\<close> when no individual has the rank \<open>front_num\<close>.
\<close>

definition slice_assign :: "nat \<Rightarrow> 'a list \<Rightarrow> 'a list \<Rightarrow> 'a list" where
  "slice_assign start rows a = take start a @ rows @ drop (start + length rows) a"

function select_fronts ::
  "matrix \<Rightarrow> matrix \<Rightarrow> nat list \<Rightarrow> dist list \<Rightarrow> nat \<Rightarrow> nat \<Rightarrow> nat \<Rightarrow> matrix \<Rightarrow> matrix
     \<Rightarrow> matrix \<times> matrix" where
  "select_fronts R_pos R_scores R_ranks R_crowding pop_size count front_num P_next_pos P_next_scores =
     (if count < pop_size then
        let front_indices = np_where (\<lambda>r. r = front_num) R_ranks in
        if front_indices = [] then (P_next_pos, P_next_scores)
        else if count + length front_indices \<le> pop_size then
          let num_to_add = length front_indices in
          select_fronts R_pos R_scores R_ranks R_crowding pop_size (count + num_to_add)
            (front_num + 1)
            (slice_assign count (np_take R_pos front_indices) P_next_pos)
            (slice_assign count (np_take R_scores front_indices) P_next_scores)
        else
          let remaining = pop_size - count;
              front_crowding = np_take R_crowding front_indices;
              sort_idx = rev (argsort front_crowding);
              selected_indices = np_take front_indices (take remaining sort_idx)
          in select_fronts R_pos R_scores R_ranks R_crowding pop_size pop_size
               (front_num + 1)
               (slice_assign count (np_take R_pos selected_indices) P_next_pos)
               (slice_assign count (np_take R_scores selected_indices) P_next_scores)
      else (P_next_pos, P_next_scores))"
  by pat_completeness auto
termination
  by (relation "measure (\<lambda>(R_pos, R_scores, R_ranks, R_crowding, pop_size, count, rest).
        pop_size - count)") (auto simp: Let_def simp flip: length_greater_0_conv)

definition environmental_selection ::
  "nat \<Rightarrow> problem \<Rightarrow> population \<Rightarrow> population \<Rightarrow> heap \<Rightarrow> (population \<times> heap) option" where
  "environmental_selection pop_size problem P Q h =
     (let R_pos = store h (pos P) @ store h (pos Q);
          R_scores = store h (scores P) @ store h (scores Q)
      in case non_dominated_sort 3 R_scores of
           None \<Rightarrow> None
         | Some (R_ranks, R_crowding) \<Rightarrow>
             (case select_fronts R_pos R_scores R_ranks R_crowding pop_size 0 1
                     (replicate pop_size (replicate (nat (dimension problem)) 0))
                     (replicate pop_size [0, 0, 0]) of
                (P_next_pos, P_next_scores) \<Rightarrow>
                  (case new_array P_next_pos h of
                     (pos_ref, h1) \<Rightarrow>
                       (case new_array P_next_scores h1 of
                          (scores_ref, h2) \<Rightarrow>
                            (case non_dominated_sort 3 P_next_scores of
                               None \<Rightarrow> None
                             | Some (ranks', crowding') \<Rightarrow>
                                 Some (\<lparr>pos = pos_ref, scores = scores_ref, ranks = ranks',
                                         crowding_distances = crowding'\<rparr>, h2))))))"

text \<open>
  One pass of the main loop for generation \<open>t\<close>.  The offspring \<open>Q\<close> is \<^verbatim>\<open>P.copy()\<close>.
  \<open>None\<close> stands for a sort that does not return, \<open>Inl\<close> for a raised exception.
\<close>

definition moho_generation ::
  "(real list \<Rightarrow> problem \<Rightarrow> real list) \<Rightarrow> nat \<Rightarrow> int \<Rightarrow> problem \<Rightarrow> draws \<Rightarrow> int
     \<Rightarrow> population \<times> heap \<Rightarrow> (error + population \<times> heap) option" where
  "moho_generation ev pop_size max_gen problem dr t st =
     (case st of (P, h) \<Rightarrow>
        let Q = dict_copy P;
            front_one = np_where (\<lambda>r. r = 1) (ranks P);
            current_front_one_indices = (if front_one = [] then [0..<pop_size] else front_one)
        in case exploration_phase ev pop_size max_gen problem P Q current_front_one_indices t
                  (explore dr t) h of
             Inl e \<Rightarrow> Some (Inl e)
           | Inr h1 \<Rightarrow>
               (case defense_phase ev pop_size problem P Q (defend dr t) h1 of
                  Inl e \<Rightarrow> Some (Inl e)
                | Inr h2 \<Rightarrow>
                    map_option Inr
                      (environmental_selection pop_size problem P Q
                         (escape_phase ev pop_size problem Q t (escape dr t) h2))))"

fun moho_loop ::
  "(real list \<Rightarrow> problem \<Rightarrow> real list) \<Rightarrow> nat \<Rightarrow> int \<Rightarrow> problem \<Rightarrow> draws \<Rightarrow> int list
     \<Rightarrow> population \<times> heap \<Rightarrow> (error + population \<times> heap) option" where
  "moho_loop ev pop_size max_gen problem dr [] st = Some (Inr st)"
| "moho_loop ev pop_size max_gen problem dr (t # ts) st =
     (case moho_generation ev pop_size max_gen problem dr t st of
        None \<Rightarrow> None
      | Some (Inl e) \<Rightarrow> Some (Inl e)
      | Some (Inr st') \<Rightarrow> moho_loop ev pop_size max_gen problem dr ts st')"

text \<open>
  Initialisation (step S41): sample the positions, evaluate them, rank them.  The two
  array allocations are where a negative size is refused.
\<close>

definition moho_init ::
  "(real list \<Rightarrow> problem \<Rightarrow> real list) \<Rightarrow> int \<Rightarrow> problem \<Rightarrow> draws
     \<Rightarrow> (error + population \<times> heap) option" where
  "moho_init ev pop_size problem dr =
     (if pop_size < 0 \<or> dimension problem < 0 then Some (Inl ValueError)
      else
        let n = nat pop_size;
            d = nat (dimension problem);
            pos0 = map (\<lambda>i. map (\<lambda>j. lb problem + (ub problem - lb problem) * init_rand dr i j)
                               [0..<d]) [0..<n]
        in case new_array pos0 empty_heap of
             (pos_ref, h1) \<Rightarrow>
               (case new_array (replicate n [0, 0, 0]) h1 of
                  (scores_ref, h2) \<Rightarrow>
                    let h3 = fold (\<lambda>i h. write_row scores_ref i
                                            (ev (store h pos_ref ! i) problem) h) [0..<n] h2
                    in case non_dominated_sort 3 (store h3 scores_ref) of
                         None \<Rightarrow> None
                       | Some (ranks0, crowding0) \<Rightarrow>
                           Some (Inr (\<lparr>pos = pos_ref, scores = scores_ref, ranks = ranks0,
                                        crowding_distances = crowding0\<rparr>, h3))))"

text \<open>
  The optimizer: initialise, run generations \<open>1, \<dots>, max_gen\<close>, and return the positions
  and scores of the final first front.
\<close>

definition moho ::
  "(real list \<Rightarrow> problem \<Rightarrow> real list) \<Rightarrow> int \<Rightarrow> int \<Rightarrow> problem \<Rightarrow> draws
     \<Rightarrow> (error + matrix \<times> matrix) option" where
  "moho ev pop_size max_gen problem dr =
     (case moho_init ev pop_size problem dr of
        None \<Rightarrow> None
      | Some (Inl e) \<Rightarrow> Some (Inl e)
      | Some (Inr st) \<Rightarrow>
          (case moho_loop ev (nat pop_size) max_gen problem dr [1..max_gen] st of
             None \<Rightarrow> None
           | Some (Inl e) \<Rightarrow> Some (Inl e)
           | Some (Inr (P, h)) \<Rightarrow>
               let final_front_indices = np_where (\<lambda>r. r = 1) (ranks P)
               in Some (Inr (np_take (store h (pos P)) final_front_indices,
                             np_take (store h (scores P)) final_front_indices))))"

section \<open>Specification of the optimizer\<close>

text \<open>
  The acceptance rule in the words of the specification: a candidate is accepted against
  the current score when it dominates it or the two are incomparable.
\<close>

definition accepts :: "real list \<Rightarrow> real list \<Rightarrow> bool" where
  "accepts candidate current \<longleftrightarrow>
     determine_dominance candidate current = 1 \<or> determine_dominance candidate current = 0"

section \<open>The dominance-gated replacement\<close>

lemma store_write_row_same:
  "i < length (store h a) \<Longrightarrow> store (write_row a i v h) a ! i = v"
  by (simp add: write_row_def)

lemma store_write_row_other:
  "a \<noteq> b \<Longrightarrow> store (write_row a i v h) b = store h b"
  by (simp add: write_row_def)

lemma length_store_write_row [simp]:
  "length (store (write_row a i v h) b) = length (store h b)"
  by (simp add: write_row_def)

lemma accept_iff_not_dominated:
  "determine_dominance a b \<ge> 0 \<longleftrightarrow> determine_dominance b a \<noteq> 1"
  using determine_dominance_minus [of a b]
  by (auto simp: determine_dominance_def)

lemma decision_slot:
  assumes "i < length (store h (pos Q))" "i < length (store h (scores Q))" "pos Q \<noteq> scores Q"
  shows "store (multi_objective_decision ev pr Q i X h) (pos Q) ! i =
           (if determine_dominance (ev (np_clip X (lb pr) (ub pr)) pr) (store h (scores Q) ! i) \<ge> 0
            then np_clip X (lb pr) (ub pr) else store h (pos Q) ! i)"
    and "store (multi_objective_decision ev pr Q i X h) (scores Q) ! i =
           (if determine_dominance (ev (np_clip X (lb pr) (ub pr)) pr) (store h (scores Q) ! i) \<ge> 0
            then ev (np_clip X (lb pr) (ub pr)) pr else store h (scores Q) ! i)"
  using assms
  by (simp_all add: multi_objective_decision_def Let_def write_row_def)


lemma accepts_iff: "accepts a b \<longleftrightarrow> 0 \<le> determine_dominance a b"
  by (auto simp: accepts_def determine_dominance_def)

lemma decision_rejected:
  "\<not> accepts (ev (np_clip X (lb pr) (ub pr)) pr) (store h (scores Q) ! i) \<Longrightarrow>
     multi_objective_decision ev pr Q i X h = h"
  by (simp add: multi_objective_decision_def Let_def accepts_iff)

text \<open>
  Claim C2.  In every movement phase a candidate is clipped, evaluated, and written to
  slot \<open>i\<close> of the offspring (position and score) exactly when
  \<open>determine_dominance\<close> of its score against the score currently stored in that slot is
  at least 0, that is when it dominates or is incomparable, equivalently when the stored
  score does not dominate it; otherwise nothing changes.  Exploration offers \<open>X_P1\<close> and
  then \<open>X_P2\<close>, so the test of \<open>X_P2\<close> is made against the slot as the decision on \<open>X_P1\<close>
  left it: against the score of \<open>X_P1\<close> when that was accepted.  Defense and escape offer
  their single candidate in the same way.
\<close>

theorem dominance_gated_replacement:
  assumes "i < length (store h (pos Q))" "i < length (store h (scores Q))" "pos Q \<noteq> scores Q"
  shows "(let X_new = np_clip X (lb pr) (ub pr);
              score_new = ev X_new pr;
              current = store h (scores Q) ! i;
              h' = multi_objective_decision ev pr Q i X h
          in (accepts score_new current \<longleftrightarrow> 0 \<le> determine_dominance score_new current) \<and>
             (accepts score_new current \<longleftrightarrow> determine_dominance current score_new \<noteq> 1) \<and>
             (if accepts score_new current
              then store h' (pos Q) ! i = X_new \<and> store h' (scores Q) ! i = score_new
              else h' = h)) \<and>
         (let A = np_clip (X_P1 pr P cfo (dr i) i h) (lb pr) (ub pr);
              B = np_clip (X_P2 mg pr P cfo t (dr i) i h) (lb pr) (ub pr);
              current = store h (scores Q) ! i
          in cfo \<noteq> [] \<longrightarrow>
             (\<exists>h2. exploration_individual ev mg pr P Q cfo t dr i h = Inr h2 \<and>
                h2 = multi_objective_decision ev pr Q i (X_P2 mg pr P cfo t (dr i) i h)
                       (multi_objective_decision ev pr Q i (X_P1 pr P cfo (dr i) i h) h) \<and>
                store h2 (scores Q) ! i =
                  (if accepts (ev A pr) current
                   then (if accepts (ev B pr) (ev A pr) then ev B pr else ev A pr)
                   else (if accepts (ev B pr) current then ev B pr else current)) \<and>
                store h2 (pos Q) ! i =
                  (if accepts (ev A pr) current
                   then (if accepts (ev B pr) (ev A pr) then B else A)
                   else (if accepts (ev B pr) current then B else store h (pos Q) ! i)))) \<and>
         defense_individual ev pr P Q dd i h =
           (case X_P3 pr P (dd i) i h of
              Inl e \<Rightarrow> Inl e
            | Inr X3 \<Rightarrow> Inr (multi_objective_decision ev pr Q i X3 h)) \<and>
         escape_individual ev pr Q t de i h =
           multi_objective_decision ev pr Q i (X_P4 pr Q t (de i) i h) h"
proof -
  let ?clip = "\<lambda>X. np_clip X (lb pr) (ub pr)"
  let ?cur = "store h (scores Q) ! i"
  have one: "(accepts (ev (?clip X) pr) ?cur \<longleftrightarrow> 0 \<le> determine_dominance (ev (?clip X) pr) ?cur) \<and>
       (accepts (ev (?clip X) pr) ?cur \<longleftrightarrow> determine_dominance ?cur (ev (?clip X) pr) \<noteq> 1) \<and>
       (if accepts (ev (?clip X) pr) ?cur
        then store (multi_objective_decision ev pr Q i X h) (pos Q) ! i = ?clip X \<and>
             store (multi_objective_decision ev pr Q i X h) (scores Q) ! i = ev (?clip X) pr
        else multi_objective_decision ev pr Q i X h = h)" for X
    using decision_slot [OF assms, of ev pr X] decision_rejected [of ev X pr h Q i]
    by (simp add: accepts_iff accept_iff_not_dominated)
  let ?XA = "X_P1 pr P cfo (dr i) i h" and ?XB = "X_P2 mg pr P cfo t (dr i) i h"
  let ?h1 = "multi_objective_decision ev pr Q i ?XA h"
  let ?h2 = "multi_objective_decision ev pr Q i ?XB ?h1"
  have l1: "i < length (store ?h1 (pos Q))" "i < length (store ?h1 (scores Q))"
    using assms(1,2) by (simp_all add: multi_objective_decision_def Let_def)
  have s1: "store ?h1 (scores Q) ! i = (if accepts (ev (?clip ?XA) pr) ?cur then ev (?clip ?XA) pr else ?cur)"
    and p1: "store ?h1 (pos Q) ! i = (if accepts (ev (?clip ?XA) pr) ?cur then ?clip ?XA else store h (pos Q) ! i)"
    using decision_slot [OF assms, of ev pr ?XA] by (simp_all add: accepts_iff)
  have s2: "store ?h2 (scores Q) ! i =
      (if accepts (ev (?clip ?XB) pr) (store ?h1 (scores Q) ! i) then ev (?clip ?XB) pr
       else store ?h1 (scores Q) ! i)"
    and p2: "store ?h2 (pos Q) ! i =
      (if accepts (ev (?clip ?XB) pr) (store ?h1 (scores Q) ! i) then ?clip ?XB
       else store ?h1 (pos Q) ! i)"
    using decision_slot [OF l1 assms(3), of ev pr ?XB] by (simp_all add: accepts_iff)
  have two: "cfo \<noteq> [] \<longrightarrow>
     (\<exists>h2. exploration_individual ev mg pr P Q cfo t dr i h = Inr h2 \<and> h2 = ?h2 \<and>
        store h2 (scores Q) ! i =
          (if accepts (ev (?clip ?XA) pr) ?cur
           then (if accepts (ev (?clip ?XB) pr) (ev (?clip ?XA) pr) then ev (?clip ?XB) pr
                 else ev (?clip ?XA) pr)
           else (if accepts (ev (?clip ?XB) pr) ?cur then ev (?clip ?XB) pr else ?cur)) \<and>
        store h2 (pos Q) ! i =
          (if accepts (ev (?clip ?XA) pr) ?cur
           then (if accepts (ev (?clip ?XB) pr) (ev (?clip ?XA) pr) then ?clip ?XB else ?clip ?XA)
           else (if accepts (ev (?clip ?XB) pr) ?cur then ?clip ?XB else store h (pos Q) ! i)))"
  proof -
    have S: "store ?h2 (scores Q) ! i =
          (if accepts (ev (?clip ?XA) pr) ?cur
           then (if accepts (ev (?clip ?XB) pr) (ev (?clip ?XA) pr) then ev (?clip ?XB) pr
                 else ev (?clip ?XA) pr)
           else (if accepts (ev (?clip ?XB) pr) ?cur then ev (?clip ?XB) pr else ?cur))"
      unfolding s2 s1 by simp
    have P: "store ?h2 (pos Q) ! i =
          (if accepts (ev (?clip ?XA) pr) ?cur
           then (if accepts (ev (?clip ?XB) pr) (ev (?clip ?XA) pr) then ?clip ?XB else ?clip ?XA)
           else (if accepts (ev (?clip ?XB) pr) ?cur then ?clip ?XB else store h (pos Q) ! i))"
      unfolding p2 s1 p1 by simp
    have E: "cfo \<noteq> [] \<Longrightarrow> exploration_individual ev mg pr P Q cfo t dr i h = Inr ?h2"
      by (simp add: exploration_individual_def)
    show ?thesis using S P E by blast
  qed
  have three: "defense_individual ev pr P Q dd i h =
           (case X_P3 pr P (dd i) i h of
              Inl e \<Rightarrow> Inl e
            | Inr X3 \<Rightarrow> Inr (multi_objective_decision ev pr Q i X3 h))"
    by (simp add: defense_individual_def)
  have four: "escape_individual ev pr Q t de i h =
           multi_objective_decision ev pr Q i (X_P4 pr Q t (de i) i h) h"
    by (simp add: escape_individual_def)
  show ?thesis
    unfolding Let_def by (rule conjI [OF one [of X] conjI [OF two conjI [OF three four]]])
qed


theorem dominance_gated_replacement_witness:
  "0 < length (store \<lparr>store = (\<lambda>a. [[5, 5]]), next_ref = 2\<rparr>
                (pos \<lparr>pos = 0, scores = 1, ranks = [1], crowding_distances = [Inf]\<rparr>)) \<and>
   0 < length (store \<lparr>store = (\<lambda>a. [[5, 5]]), next_ref = 2\<rparr>
                (scores \<lparr>pos = 0, scores = 1, ranks = [1], crowding_distances = [Inf]\<rparr>)) \<and>
   pos \<lparr>pos = 0, scores = 1, ranks = [1], crowding_distances = [Inf]\<rparr>
     \<noteq> scores \<lparr>pos = 0, scores = 1, ranks = [1], crowding_distances = [Inf]\<rparr> \<and>
   accepts [1, 10] [5, 5] \<and>
   store (multi_objective_decision (\<lambda>x p. x) \<lparr>dimension = 2, n_sensors = 1, lb = 0, ub = 10\<rparr>
            \<lparr>pos = 0, scores = 1, ranks = [1], crowding_distances = [Inf]\<rparr> 0 [1, 20]
            \<lparr>store = (\<lambda>a. [[5, 5]]), next_ref = 2\<rparr>) 0 ! 0 = [1, 10]"
proof -
  let ?h = "\<lparr>store = (\<lambda>a. [[5, 5 :: real]]), next_ref = 2\<rparr>"
  let ?Q = "\<lparr>pos = 0, scores = 1, ranks = [1], crowding_distances = [Inf]\<rparr>"
  let ?pr = "\<lparr>dimension = 2, n_sensors = 1, lb = 0, ub = 10\<rparr>"
  have a: "0 < length (store ?h (pos ?Q))" and b: "0 < length (store ?h (scores ?Q))"
    and c: "pos ?Q \<noteq> scores ?Q"
    by simp_all
  have acc: "accepts [1, 10] [5, 5]"
    by (simp add: accepts_def determine_dominance_def np_all_le_def np_any_lt_def)
  have clip: "np_clip [1, 20] (lb ?pr) (ub ?pr) = [1, 10]"
    by (simp add: np_clip_def)
  have cur: "store ?h (scores ?Q) ! 0 = [5, 5]" by simp
  from dominance_gated_replacement [OF a b c, of "[1, 20]" ?pr "\<lambda>x p. x"]
  have "if accepts [1, 10] [5, 5]
        then store (multi_objective_decision (\<lambda>x p. x) ?pr ?Q 0 [1, 20] ?h) (pos ?Q) ! 0 = [1, 10] \<and>
             store (multi_objective_decision (\<lambda>x p. x) ?pr ?Q 0 [1, 20] ?h) (scores ?Q) ! 0 = [1, 10]
        else multi_objective_decision (\<lambda>x p. x) ?pr ?Q 0 [1, 20] ?h = ?h"
    unfolding Let_def clip cur by blast
  with acc have "store (multi_objective_decision (\<lambda>x p. x) ?pr ?Q 0 [1, 20] ?h) (pos ?Q) ! 0 = [1, 10]"
    by simp
  with a b c acc show ?thesis by simp
qed


end
